theory Spec2Isabelle
  imports Main "HOL-Library.Multiset"
begin

section \<open>Data model (priorityQueue.go)\<close>

text \<open>
  The struct \<^verbatim>\<open>QItem\<close> with its five fields. \<^verbatim>\<open>Value\<close> is an \<^verbatim>\<open>interface{}\<close> the queue
  never inspects, hence a type parameter. \<^verbatim>\<open>Priority\<close> and \<^verbatim>\<open>index\<close> are Go \<^verbatim>\<open>int\<close>s; the
  queue only compares priorities and only stores slice positions (and the sentinel \<open>-1\<close>)
  in \<^verbatim>\<open>index\<close>, so no arithmetic on them can overflow and they are modelled as \<open>int\<close>.
  The counters \<^verbatim>\<open>itemsUpdated\<close> and \<^verbatim>\<open>itemsDeleted\<close> never exceed the length of the slice.
\<close>

record 'v QItem =
  ID :: string
  ParentID :: string
  Value :: 'v
  Priority :: int
  index :: int

text \<open>
  \<^verbatim>\<open>type QItems []*QItem\<close>. Every pointer stored in the slice comes from a fresh allocation
  in \<^verbatim>\<open>QItems.Push\<close> (\<^verbatim>\<open>&item\<close> of a local copy) and slots are only ever permuted, so no two
  slots alias; the slice is modelled as the list of the items pointed to. The struct
  \<^verbatim>\<open>PriorityQueue\<close> holds this slice, a mutex and an unused flag: every public operation
  runs under the mutex, and is modelled as a function from the slice before the call to
  the slice after it, together with the values returned.
\<close>

type_synonym 'v QItems = "'v QItem list"

text \<open>The three \<^verbatim>\<open>fmt.Errorf\<close> sites of the file.\<close>

datatype error =
    EmptyQueue             \<comment> \<open>"queue is empty, nothing to Pop"\<close>
  | NotFound string        \<comment> \<open>"ID Not found: [id]"\<close>
  | IndexOutOfRange        \<comment> \<open>"Index out of range"\<close>

text \<open>
  A Go function that indexes a slice out of range panics. Where this can happen the model
  returns an \<open>option\<close>: \<open>None\<close> is the run-time panic, \<open>Some\<close> the normal return.
\<close>

section \<open>The \<^verbatim>\<open>heap.Interface\<close> methods of \<^verbatim>\<open>QItems\<close>\<close>

definition Len :: "'v QItems \<Rightarrow> int" where
  "Len qData = int (length qData)"

definition Less :: "'v QItems \<Rightarrow> nat \<Rightarrow> nat \<Rightarrow> bool" where
  "Less qData i j = (Priority (qData ! i) > Priority (qData ! j))"

text \<open>
  \<^verbatim>\<open>Swap\<close>: the two slots exchange their pointers, then the item now in slot \<open>i\<close> gets
  \<^verbatim>\<open>index = i\<close> and the item now in slot \<open>j\<close> gets \<^verbatim>\<open>index = j\<close>.
  \<^verbatim>\<open>Less\<close> and \<^verbatim>\<open>Swap\<close> are called by \<^verbatim>\<open>container/heap\<close> only; the entry points below
  check that the positions they start from are valid slice indices.
\<close>

definition Swap :: "'v QItems \<Rightarrow> nat \<Rightarrow> nat \<Rightarrow> 'v QItems" where
  "Swap qData i j =
     (let q1 = qData[i := qData ! j, j := qData ! i];
          q2 = q1[i := (q1 ! i)\<lparr>index := int i\<rparr>];
          q3 = q2[j := (q2 ! j)\<lparr>index := int j\<rparr>]
      in q3)"

definition QItems_Push :: "'v QItems \<Rightarrow> 'v QItem \<Rightarrow> 'v QItems" where
  "QItems_Push qData x =
     (let n = length qData; item = x\<lparr>index := int n\<rparr> in qData @ [item])"

text \<open>\<^verbatim>\<open>QItems.Pop\<close> reads \<^verbatim>\<open>old[n-1]\<close>, which panics on an empty slice.\<close>

definition QItems_Pop :: "'v QItems \<Rightarrow> ('v QItems \<times> 'v QItem) option" where
  "QItems_Pop qData =
     (let old = qData; n = length old in
      if n = 0 then None
      else let item = (old ! (n - 1))\<lparr>index := - 1\<rparr> in Some (take (n - 1) old, item))"

section \<open>The functions of \<^verbatim>\<open>container/heap\<close> the queue calls\<close>

text \<open>
  \<^verbatim>\<open>container/heap\<close> is the Go standard library, not part of the repository; the spec
  describes it as the Heap Engine (PushRaw, PopRoot, Fix, RemoveAt). The definitions follow
  the library's functions \<^verbatim>\<open>up\<close>, \<^verbatim>\<open>down\<close>, \<^verbatim>\<open>Push\<close>, \<^verbatim>\<open>Pop\<close>, \<^verbatim>\<open>Remove\<close> and \<^verbatim>\<open>Fix\<close>.
  Positions inside the loops are valid slice indices and are natural numbers here.

  \<^verbatim>\<open>up\<close>: \<^verbatim>\<open>for { i := (j - 1) / 2; if i == j || !h.Less(j, i) { break }; h.Swap(i, j); j = i }\<close>.
  Go's division truncates towards zero, so \<open>j = 0\<close> gives \<open>i = 0\<close>, as the truncating
  subtraction of \<open>nat\<close> does.
\<close>

function up :: "'v QItems \<Rightarrow> nat \<Rightarrow> 'v QItems" where
  "up h j =
     (let i = (j - 1) div 2 in
      if i = j \<or> \<not> Less h j i then h else up (Swap h i j) i)"
  by pat_completeness auto
termination
  by (relation "measure (\<lambda>(h, j). j)") auto

declare up.simps [simp del]

text \<open>
  \<^verbatim>\<open>down\<close>: the loop picks the child with the larger priority (\<^verbatim>\<open>Less\<close> is \<open>>\<close>), stops
  when there is no child below \<open>n\<close> or the child is not \<^verbatim>\<open>Less\<close> than the current slot, and
  swaps otherwise. The library's guard \<^verbatim>\<open>j1 < 0\<close> catches an overflow of \<^verbatim>\<open>2*i + 1\<close>, which
  no index of a slice of pointers can cause. \<open>down_loop\<close> returns the slice and the
  final \<open>i\<close>; \<open>down\<close> returns the library's result \<^verbatim>\<open>i > i0\<close>.
\<close>

function down_loop :: "'v QItems \<Rightarrow> nat \<Rightarrow> nat \<Rightarrow> 'v QItems \<times> nat" where
  "down_loop h i n =
     (let j1 = 2 * i + 1 in
      if j1 \<ge> n then (h, i)
      else let j = (if j1 + 1 < n \<and> Less h (j1 + 1) j1 then j1 + 1 else j1) in
           if \<not> Less h j i then (h, i) else down_loop (Swap h i j) j n)"
  by pat_completeness auto
termination
  by (relation "measure (\<lambda>(h, i, n). n - i)") (auto simp: Let_def split: if_splits)

declare down_loop.simps [simp del]

definition down :: "'v QItems \<Rightarrow> nat \<Rightarrow> nat \<Rightarrow> 'v QItems \<times> bool" where
  "down h i0 n = (let (h', i) = down_loop h i0 n in (h', i > i0))"

text \<open>\<^verbatim>\<open>heap.Push\<close>: \<^verbatim>\<open>h.Push(x); up(h, h.Len()-1)\<close>.\<close>

definition heap_Push :: "'v QItems \<Rightarrow> 'v QItem \<Rightarrow> 'v QItems" where
  "heap_Push h x = (let h1 = QItems_Push h x in up h1 (length h1 - 1))"

text \<open>
  \<^verbatim>\<open>heap.Pop\<close>: \<^verbatim>\<open>n := h.Len() - 1; h.Swap(0, n); down(h, 0, n); return h.Pop()\<close>.
  On an empty slice \<^verbatim>\<open>Swap(0, -1)\<close> panics.
\<close>

definition heap_Pop :: "'v QItems \<Rightarrow> ('v QItems \<times> 'v QItem) option" where
  "heap_Pop h =
     (if length h = 0 then None
      else let n = length h - 1;
               h1 = Swap h 0 n;
               (h2, moved) = down h1 0 n
           in QItems_Pop h2)"

text \<open>
  The statement \<^verbatim>\<open>if !down(h, i, n) { up(h, i) }\<close>, which \<^verbatim>\<open>Remove\<close> and \<^verbatim>\<open>Fix\<close> both run.
\<close>

definition down_or_up :: "'v QItems \<Rightarrow> nat \<Rightarrow> nat \<Rightarrow> 'v QItems" where
  "down_or_up h i n = (let (h', moved) = down h i n in if \<not> moved then up h' i else h')"

text \<open>
  \<^verbatim>\<open>heap.Remove(h, i)\<close>:
  \<^verbatim>\<open>n := h.Len() - 1; if n != i { h.Swap(i, n); if !down(h, i, n) { up(h, i) } }; return h.Pop()\<close>.
  A position outside the slice panics: in \<^verbatim>\<open>Swap\<close>, or (for \<open>i = n = -1\<close>) in \<^verbatim>\<open>h.Pop\<close>.
\<close>

definition heap_Remove :: "'v QItems \<Rightarrow> int \<Rightarrow> ('v QItems \<times> 'v QItem) option" where
  "heap_Remove h i =
     (if \<not> (0 \<le> i \<and> i < int (length h)) then None
      else let n = length h - 1;
               h1 = (if n \<noteq> nat i then down_or_up (Swap h (nat i) n) (nat i) n else h)
           in QItems_Pop h1)"

text \<open>
  \<^verbatim>\<open>heap.Fix(h, i)\<close>: \<^verbatim>\<open>if !down(h, i, h.Len()) { up(h, i) }\<close>.
  For a position outside the slice \<^verbatim>\<open>down\<close> breaks at once and returns false; \<^verbatim>\<open>up\<close> then
  computes the parent \<^verbatim>\<open>(i-1)/2\<close> and breaks without touching the slice exactly when that
  equals \<open>i\<close>, which is the case for \<open>i = 0\<close> and \<open>i = -1\<close>; any other position reaches
  \<^verbatim>\<open>h.Less(i, parent)\<close> and panics.
\<close>

definition heap_Fix :: "'v QItems \<Rightarrow> int \<Rightarrow> 'v QItems option" where
  "heap_Fix h i =
     (if 0 \<le> i \<and> i < int (length h) then Some (down_or_up h (nat i) (length h))
      else if i = 0 \<or> i = - 1 then Some h
      else None)"

section \<open>The queue's own primitives\<close>

text \<open>\<^verbatim>\<open>update\<close>: \<^verbatim>\<open>item.Priority = priority; heap.Fix(qData, item.index)\<close>, where \<^verbatim>\<open>item\<close> is
  the pointer stored in slot \<open>pos\<close>.\<close>

definition update :: "'v QItems \<Rightarrow> nat \<Rightarrow> int \<Rightarrow> 'v QItems option" where
  "update qData pos priority =
     (let item = (qData ! pos)\<lparr>Priority := priority\<rparr>;
          q1 = qData[pos := item]
      in heap_Fix q1 (index item))"

text \<open>
  \<^verbatim>\<open>delete\<close>: \<^verbatim>\<open>if index < qData.Len() { heap.Remove(qData, index); return nil };
  return fmt.Errorf("Index out of range")\<close>. The result of \<^verbatim>\<open>heap.Remove\<close> is dropped.
\<close>

definition delete :: "'v QItems \<Rightarrow> int \<Rightarrow> ('v QItems \<times> error option) option" where
  "delete qData idx =
     (if idx < Len qData
      then (case heap_Remove qData idx of
              None \<Rightarrow> None
            | Some (q', removed) \<Rightarrow> Some (q', None))
      else Some (qData, Some IndexOutOfRange))"

section \<open>The public operations of \<^verbatim>\<open>PriorityQueue\<close>\<close>

text \<open>\<^verbatim>\<open>NewPriorityQueue\<close>: an empty slice; \<^verbatim>\<open>heap.Init\<close> on it runs no iteration.\<close>

definition NewPriorityQueue :: "'v QItems" where
  "NewPriorityQueue = []"

definition Push :: "'v QItems \<Rightarrow> 'v QItem \<Rightarrow> 'v QItems" where
  "Push data i = heap_Push data i"

text \<open>
  \<^verbatim>\<open>Pop\<close> returns a pointer and an error: \<open>(r, nil)\<close> when the queue is not empty,
  \<open>(nil, error)\<close> otherwise. The pointer is an \<open>option\<close>, \<open>None\<close> being \<^verbatim>\<open>nil\<close>.
\<close>

definition Pop :: "'v QItems \<Rightarrow> ('v QItems \<times> 'v QItem option \<times> error option) option" where
  "Pop data =
     (if Len data > 0
      then (case heap_Pop data of
              None \<Rightarrow> None
            | Some (data', r) \<Rightarrow> Some (data', Some r, None))
      else Some (data, None, Some EmptyQueue))"

text \<open>
  \<^verbatim>\<open>UpdatePriorityByParentId\<close>. \<^verbatim>\<open>for _, element := range pq.data\<close> fixes the number of
  iterations when the loop starts and reads slot \<open>k\<close> of the backing array at iteration
  \<open>k\<close>, so it sees the swaps earlier iterations made. The body takes \<^verbatim>\<open>element.index\<close>,
  reads \<^verbatim>\<open>pq.data[index]\<close> (a panic when out of range) and calls \<^verbatim>\<open>update\<close> on it.
\<close>

definition update_body ::
  "string \<Rightarrow> int \<Rightarrow> nat \<Rightarrow> 'v QItems \<times> int \<Rightarrow> ('v QItems \<times> int) option" where
  "update_body parentID priority k s =
     (let (data, itemsUpdated) = s; element = data ! k in
      if ParentID element = parentID
      then (let idx = index element in
            if \<not> (0 \<le> idx \<and> idx < int (length data)) then None
            else (case update data (nat idx) priority of
                    None \<Rightarrow> None
                  | Some data' \<Rightarrow> Some (data', itemsUpdated + 1)))
      else Some (data, itemsUpdated))"

fun update_range ::
  "string \<Rightarrow> int \<Rightarrow> nat list \<Rightarrow> 'v QItems \<times> int \<Rightarrow> ('v QItems \<times> int) option" where
  "update_range parentID priority [] s = Some s"
| "update_range parentID priority (k # ks) s =
     (case update_body parentID priority k s of
        None \<Rightarrow> None
      | Some s' \<Rightarrow> update_range parentID priority ks s')"

definition UpdatePriorityByParentId ::
  "'v QItems \<Rightarrow> string \<Rightarrow> int \<Rightarrow> ('v QItems \<times> int) option" where
  "UpdatePriorityByParentId data parentID priority =
     update_range parentID priority [0..<length data] (data, 0)"

text \<open>
  \<^verbatim>\<open>locateItemByID\<close>: the \<^verbatim>\<open>index\<close> field of the first item with the given \<^verbatim>\<open>ID\<close>, in slice
  order; the error when the loop leaves \<^verbatim>\<open>index\<close> at \<open>-1\<close>.
\<close>

definition locateItemByID :: "'v QItems \<Rightarrow> string \<Rightarrow> int \<times> error option" where
  "locateItemByID data ident =
     (let idx = (case find (\<lambda>element. ID element = ident) data of
                   None \<Rightarrow> - 1
                 | Some element \<Rightarrow> index element)
      in if idx = - 1 then (- 1, Some (NotFound ident)) else (idx, None))"

definition DeleteItemById :: "'v QItems \<Rightarrow> string \<Rightarrow> ('v QItems \<times> error option) option" where
  "DeleteItemById data ident =
     (case locateItemByID data ident of
        (idx, Some err) \<Rightarrow> Some (data, Some err)
      | (idx, None) \<Rightarrow> delete data idx)"

text \<open>
  \<^verbatim>\<open>DeleteItemsByParentId\<close> first collects \<^verbatim>\<open>element.index\<close> of every matching item into
  \<^verbatim>\<open>indexesToDelete\<close>. The second loop is \<^verbatim>\<open>for index := range indexesToDelete\<close>: with one
  loop variable, \<^verbatim>\<open>range\<close> over a slice yields the positions \<open>0, 1, ...\<close> of
  \<^verbatim>\<open>indexesToDelete\<close>, not its elements, and \<^verbatim>\<open>delete\<close> is called with those.
\<close>

fun delete_range ::
  "nat list \<Rightarrow> 'v QItems \<Rightarrow> int \<Rightarrow> ('v QItems \<times> int \<times> error option) option" where
  "delete_range [] data itemsDeleted = Some (data, itemsDeleted, None)"
| "delete_range (idx # rest) data itemsDeleted =
     (case delete data (int idx) of
        None \<Rightarrow> None
      | Some (data', Some err) \<Rightarrow> Some (data', itemsDeleted, Some err)
      | Some (data', None) \<Rightarrow> delete_range rest data' (itemsDeleted + 1))"

definition DeleteItemsByParentId ::
  "'v QItems \<Rightarrow> string \<Rightarrow> ('v QItems \<times> int \<times> error option) option" where
  "DeleteItemsByParentId data parentID =
     (let indexesToDelete = map index (filter (\<lambda>element. ParentID element = parentID) data)
      in delete_range [0..<length indexesToDelete] data 0)"

text \<open>
  Draining the queue as the tests do: \<^verbatim>\<open>for pq.Len() > 0 { x, err := pq.Pop(); ... }\<close>,
  collecting the items popped. The loop stops early should \<^verbatim>\<open>Pop\<close> fail.
\<close>

function drain :: "'v QItems \<Rightarrow> 'v QItem list" where
  "drain data =
     (if Len data > 0
      then (case Pop data of
              Some (data', Some x, None) \<Rightarrow> x # drain data'
            | _ \<Rightarrow> [])
      else [])"
  by pat_completeness auto
termination
proof (relation "measure length")
  show "wf (measure length)" by simp
next
  fix data data' :: "'v QItems" and p r xa ya x
  assume pop: "0 < Len data" "Pop data = Some p" "(data', r) = p" "(xa, ya) = r"
    "xa = Some x" "ya = None"
  have len_swap: "length (Swap h i j) = length h" for h :: "'v QItems" and i j
    by (simp add: Swap_def Let_def)
  have len_down: "length (fst (down_loop h i n)) = length h" for h :: "'v QItems" and i n
  proof (induction h i n rule: down_loop.induct)
    case (1 h i n)
    show ?case
      using "1.IH" by (subst down_loop.simps) (simp add: Let_def len_swap)
  qed
  from pop have "data \<noteq> []" and hp: "heap_Pop data = Some (data', x)"
    by (auto simp: Pop_def Len_def split: if_splits option.splits)
  from hp have "length data' = length data - 1"
    by (auto simp: heap_Pop_def QItems_Pop_def down_def Let_def split_beta len_down len_swap
        split: if_splits)
  with \<open>data \<noteq> []\<close> show "(data', data) \<in> measure length"
    by (cases data) auto
qed

declare drain.simps [simp del]

section \<open>What a caller sees, and the invariants of the spec\<close>

text \<open>
  The entry shape exposed to callers: every field but the internal \<^verbatim>\<open>index\<close>.
  \<open>contents\<close> is the multiset of entries stored, whatever their slots.
\<close>

definition entry :: "'v QItem \<Rightarrow> string \<times> string \<times> 'v \<times> int" where
  "entry x = (ID x, ParentID x, Value x, Priority x)"

definition contents :: "'v QItems \<Rightarrow> (string \<times> string \<times> 'v \<times> int) multiset" where
  "contents h = mset (map entry h)"

text \<open>Max-heap property: every slot but the root has a parent of at least its priority.\<close>

definition heap_ok :: "'v QItems \<Rightarrow> bool" where
  "heap_ok h = (\<forall>i \<in> {1..<length h}. Priority (h ! ((i - 1) div 2)) \<ge> Priority (h ! i))"

text \<open>Position consistency: the \<^verbatim>\<open>index\<close> field of the item in slot \<open>i\<close> is \<open>i\<close>.\<close>

definition pos_ok :: "'v QItems \<Rightarrow> bool" where
  "pos_ok h = (\<forall>i \<in> {0..<length h}. index (h ! i) = int i)"

definition queue_inv :: "'v QItems \<Rightarrow> bool" where
  "queue_inv h = (heap_ok h \<and> pos_ok h)"

text \<open>
  A sequence of calls of the public operations, run from a given slice. A call that
  returns an error still returns; \<open>None\<close> is a panic.
\<close>

datatype 'v call =
    CallPush "'v QItem"
  | CallPop
  | CallUpdatePriorityByParentId string int
  | CallDeleteItemById string
  | CallDeleteItemsByParentId string

fun do_call :: "'v call \<Rightarrow> 'v QItems \<Rightarrow> 'v QItems option" where
  "do_call (CallPush x) h = Some (Push h x)"
| "do_call CallPop h = map_option fst (Pop h)"
| "do_call (CallUpdatePriorityByParentId parentID priority) h =
     map_option fst (UpdatePriorityByParentId h parentID priority)"
| "do_call (CallDeleteItemById ident) h = map_option fst (DeleteItemById h ident)"
| "do_call (CallDeleteItemsByParentId parentID) h =
     map_option fst (DeleteItemsByParentId h parentID)"

fun run_calls :: "'v call list \<Rightarrow> 'v QItems \<Rightarrow> 'v QItems option" where
  "run_calls [] h = Some h"
| "run_calls (c # cs) h =
     (case do_call c h of None \<Rightarrow> None | Some h' \<Rightarrow> run_calls cs h')"

text \<open>
  The fixture of the tests: \<^verbatim>\<open>populateQueue(pq, 10)\<close> pushes ten items with parent
  \<^verbatim>\<open>"12345"\<close>, the IDs \<^verbatim>\<open>"0"\<close> to \<^verbatim>\<open>"9"\<close> and the priorities 1 to 10, in this order.
\<close>

definition test_item :: "string \<Rightarrow> int \<Rightarrow> string QItem" where
  "test_item i p = \<lparr>ID = i, ParentID = ''12345'', Value = ''test'', Priority = p, index = 0\<rparr>"

definition populateQueue10 :: "string QItems" where
  "populateQueue10 =
     foldl Push NewPriorityQueue
       [test_item ''0'' 1, test_item ''1'' 2, test_item ''2'' 3, test_item ''3'' 4,
        test_item ''4'' 5, test_item ''5'' 6, test_item ''6'' 7, test_item ''7'' 8,
        test_item ''8'' 9, test_item ''9'' 10]"

section \<open>Predicates for the sift loops\<close>

text \<open>
  \<open>heap_upto h n\<close> is the heap property on the first \<open>n\<close> slots. While \<^verbatim>\<open>down\<close>, \<^verbatim>\<open>up\<close>
  or both repair the slice, the property may fail around one slot \<open>i\<close>: \<open>down_inv\<close> allows
  \<open>i\<close> to be smaller than its children, \<open>up_inv\<close> allows it to be larger than its parent,
  \<open>except_inv\<close> allows either; all three keep the children of \<open>i\<close> below the parent of
  \<open>i\<close>. \<open>child\<close> is the slot \<^verbatim>\<open>j\<close> that \<^verbatim>\<open>down\<close> compares with \<open>i\<close>.
\<close>

definition heap_upto :: "'v QItems \<Rightarrow> nat \<Rightarrow> bool" where
  "heap_upto h n = (\<forall>c \<in> {1..<n}. Priority (h ! ((c - 1) div 2)) \<ge> Priority (h ! c))"

definition down_inv :: "'v QItems \<Rightarrow> nat \<Rightarrow> nat \<Rightarrow> bool" where
  "down_inv h n i =
     (\<forall>c \<in> {1..<n}.
        ((c - 1) div 2 \<noteq> i \<longrightarrow> Priority (h ! ((c - 1) div 2)) \<ge> Priority (h ! c)) \<and>
        ((c - 1) div 2 = i \<and> 0 < i \<longrightarrow> Priority (h ! ((i - 1) div 2)) \<ge> Priority (h ! c)))"

definition up_inv :: "'v QItems \<Rightarrow> nat \<Rightarrow> nat \<Rightarrow> bool" where
  "up_inv h n j =
     (\<forall>c \<in> {1..<n}.
        (c \<noteq> j \<longrightarrow> Priority (h ! ((c - 1) div 2)) \<ge> Priority (h ! c)) \<and>
        ((c - 1) div 2 = j \<and> 0 < j \<longrightarrow> Priority (h ! ((j - 1) div 2)) \<ge> Priority (h ! c)))"

definition except_inv :: "'v QItems \<Rightarrow> nat \<Rightarrow> nat \<Rightarrow> bool" where
  "except_inv h n i =
     (\<forall>c \<in> {1..<n}.
        (c \<noteq> i \<and> (c - 1) div 2 \<noteq> i \<longrightarrow> Priority (h ! ((c - 1) div 2)) \<ge> Priority (h ! c)) \<and>
        ((c - 1) div 2 = i \<and> 0 < i \<longrightarrow> Priority (h ! ((i - 1) div 2)) \<ge> Priority (h ! c)))"

definition child :: "'v QItems \<Rightarrow> nat \<Rightarrow> nat \<Rightarrow> nat" where
  "child h i n = (if 2 * i + 1 + 1 < n \<and> Less h (2 * i + 1 + 1) (2 * i + 1) then 2 * i + 1 + 1 else 2 * i + 1)"

section \<open>Lemmas about the heap functions\<close>

lemma length_Swap [simp]: "length (Swap h i j) = length h"
  by (simp add: Swap_def Let_def)

lemma Swap_nth:
  assumes "i < length h" "j < length h" "k < length h"
  shows "Swap h i j ! k =
     (if k = j then (h ! i)\<lparr>index := int j\<rparr>
      else if k = i then (h ! j)\<lparr>index := int i\<rparr>
      else h ! k)"
  using assms by (auto simp: Swap_def Let_def nth_list_update)

lemma Swap_nth_other: "k \<noteq> i \<Longrightarrow> k \<noteq> j \<Longrightarrow> Swap h i j ! k = h ! k"
  by (simp add: Swap_def Let_def)

lemma Priority_Swap:
  assumes "i < length h" "j < length h" "k < length h"
  shows "Priority (Swap h i j ! k) =
     (if k = j then Priority (h ! i) else if k = i then Priority (h ! j) else Priority (h ! k))"
  using assms by (simp add: Swap_nth)

lemma length_up [simp]: "length (up h j) = length h"
proof (induction h j rule: up.induct)
  case (1 h j)
  show ?case
    using "1.IH" by (subst up.simps) (simp add: Let_def)
qed

lemma length_down_loop [simp]: "length (fst (down_loop h i n)) = length h"
proof (induction h i n rule: down_loop.induct)
  case (1 h i n)
  show ?case
    using "1.IH" by (subst down_loop.simps) (simp add: Let_def)
qed

lemma length_down [simp]: "length (fst (down h i n)) = length h"
  by (simp add: down_def split_beta)

lemma down_loop_unfold:
  "down_loop h i n =
     (if n \<le> 2 * i + 1 then (h, i)
      else if \<not> Less h (child h i n) i then (h, i)
      else down_loop (Swap h i (child h i n)) (child h i n) n)"
  by (subst down_loop.simps) (simp add: Let_def child_def)

lemma child_cases: "child h i n = 2 * i + 1 \<or> child h i n = 2 * i + 2"
  by (simp add: child_def)

lemma child_less: "2 * i + 1 < n \<Longrightarrow> child h i n < n"
  by (simp add: child_def)

lemma child_parent: "(child h i n - 1) div 2 = i"
  using child_cases[of h i n] by auto

lemma child_gt: "i < child h i n"
  using child_cases[of h i n] by auto

lemma child_max:
  assumes "0 < c" "c < n" "(c - 1) div 2 = i"
  shows "Priority (h ! c) \<le> Priority (h ! child h i n)"
proof -
  from assms have "c = 2 * i + 1 \<or> c = 2 * i + 2" by auto
  with assms show ?thesis by (auto simp: child_def Less_def)
qed

lemma down_inv_D1:
  "down_inv h n i \<Longrightarrow> 0 < c \<Longrightarrow> c < n \<Longrightarrow> (c - 1) div 2 \<noteq> i \<Longrightarrow>
     Priority (h ! c) \<le> Priority (h ! ((c - 1) div 2))"
  by (simp add: down_inv_def)

lemma down_inv_D2:
  "down_inv h n i \<Longrightarrow> 0 < c \<Longrightarrow> c < n \<Longrightarrow> (c - 1) div 2 = i \<Longrightarrow> 0 < i \<Longrightarrow>
     Priority (h ! c) \<le> Priority (h ! ((i - 1) div 2))"
  by (simp add: down_inv_def)

lemma up_inv_D1:
  "up_inv h n j \<Longrightarrow> 0 < c \<Longrightarrow> c < n \<Longrightarrow> c \<noteq> j \<Longrightarrow>
     Priority (h ! c) \<le> Priority (h ! ((c - 1) div 2))"
  by (simp add: up_inv_def)

lemma up_inv_D2:
  "up_inv h n j \<Longrightarrow> 0 < c \<Longrightarrow> c < n \<Longrightarrow> (c - 1) div 2 = j \<Longrightarrow> 0 < j \<Longrightarrow>
     Priority (h ! c) \<le> Priority (h ! ((j - 1) div 2))"
  by (simp add: up_inv_def)

lemma heap_uptoD:
  "heap_upto h n \<Longrightarrow> 0 < c \<Longrightarrow> c < n \<Longrightarrow> Priority (h ! c) \<le> Priority (h ! ((c - 1) div 2))"
  by (simp add: heap_upto_def)

lemma heap_uptoI:
  "(\<And>c. 0 < c \<Longrightarrow> c < n \<Longrightarrow> Priority (h ! c) \<le> Priority (h ! ((c - 1) div 2))) \<Longrightarrow> heap_upto h n"
  by (simp add: heap_upto_def)



lemma down_inv_no_child:
  assumes "down_inv h n i" "n \<le> 2 * i + 1"
  shows "heap_upto h n"
proof (rule heap_uptoI)
  fix c assume c: "0 < c" "c < n"
  then have "(c - 1) div 2 \<noteq> i" using assms(2) by auto
  with assms(1) c show "Priority (h ! c) \<le> Priority (h ! ((c - 1) div 2))"
    by (rule down_inv_D1)
qed

lemma down_inv_stop:
  assumes inv: "down_inv h n i" and stop: "\<not> Less h (child h i n) i"
  shows "heap_upto h n"
proof (rule heap_uptoI)
  fix c assume c: "0 < c" "c < n"
  show "Priority (h ! c) \<le> Priority (h ! ((c - 1) div 2))"
  proof (cases "(c - 1) div 2 = i")
    case False
    with inv c show ?thesis by (rule down_inv_D1)
  next
    case True
    from child_max[where h = h, OF c True] stop True show ?thesis
      by (simp add: Less_def)
  qed
qed

lemma down_inv_step:
  assumes len: "n \<le> length h"
    and inv: "down_inv h n i" and j1: "2 * i + 1 < n"
    and j: "j = child h i n"
    and less: "Less h j i"
  shows "down_inv (Swap h i j) n j"
  unfolding down_inv_def
proof (intro ballI conjI impI)
  have jn: "j < n" "i < j" "(j - 1) div 2 = i" "0 < j"
    using j child_less[OF j1] child_gt[of i h n] child_parent[of h i n] by auto
  have il: "i < length h" "j < length h" using jn len by auto
  {
    fix c assume "c \<in> {1..<n}" and pc: "(c - 1) div 2 \<noteq> j"
    then have c: "0 < c" "c < n" by auto
    have cl: "c < length h" "(c - 1) div 2 < length h" using c len by auto
    show "Priority (Swap h i j ! c) \<le> Priority (Swap h i j ! ((c - 1) div 2))"
    proof (cases "(c - 1) div 2 = i")
      case True
      then have "c \<noteq> i" using c by auto
      with True child_max[where h = h, OF c True] less il cl j show ?thesis
        by (auto simp: Priority_Swap Less_def)
    next
      case False
      have le: "Priority (h ! c) \<le> Priority (h ! ((c - 1) div 2))"
        using down_inv_D1[OF inv c False] .
      have cj: "c \<noteq> j" using False jn by auto
      show ?thesis
      proof (cases "c = i")
        case True
        with c have "0 < i" by simp
        then have "Priority (h ! j) \<le> Priority (h ! ((i - 1) div 2))"
          using down_inv_D2[OF inv jn(4,1,3)] by simp
        moreover have "(i - 1) div 2 \<noteq> i" "(i - 1) div 2 \<noteq> j" using \<open>0 < i\<close> jn by auto
        ultimately show ?thesis using True il cl cj by (simp add: Priority_Swap)
      next
        case ci: False
        with False pc cj le il cl show ?thesis by (simp add: Priority_Swap)
      qed
    qed
  next
    fix c assume "c \<in> {1..<n}" and pc: "(c - 1) div 2 = j \<and> 0 < j"
    then have c: "0 < c" "c < n" by auto
    have cl: "c < length h" using c len by auto
    have cne: "c \<noteq> i" "c \<noteq> j" using pc jn c by auto
    have "(c - 1) div 2 \<noteq> i" using pc jn by simp
    then have "Priority (h ! c) \<le> Priority (h ! ((c - 1) div 2))"
      using down_inv_D1[OF inv c] by simp
    with cne jn il cl pc show "Priority (Swap h i j ! c) \<le> Priority (Swap h i j ! ((j - 1) div 2))"
      by (simp add: Priority_Swap)
  }
qed

lemma down_loop_heap:
  "n \<le> length h \<Longrightarrow> down_inv h n i \<Longrightarrow> heap_upto (fst (down_loop h i n)) n"
proof (induction h i n rule: down_loop.induct)
  case (1 h i n)
  show ?case
  proof (cases "n \<le> 2 * i + 1")
    case True
    then have "down_loop h i n = (h, i)" by (subst down_loop_unfold) simp
    with down_inv_no_child[OF "1.prems"(2) True] show ?thesis by simp
  next
    case nc: False
    show ?thesis
    proof (cases "Less h (child h i n) i")
      case False
      then have "down_loop h i n = (h, i)"
        using nc by (subst down_loop_unfold) simp
      with down_inv_stop[OF "1.prems"(2) False] show ?thesis by simp
    next
      case True
      then have eq: "down_loop h i n = down_loop (Swap h i (child h i n)) (child h i n) n"
        using nc by (subst down_loop_unfold) simp
      have "down_inv (Swap h i (child h i n)) n (child h i n)"
        using down_inv_step[OF "1.prems"(1,2) _ refl True] nc by simp
      moreover have "n \<le> length (Swap h i (child h i n))" using "1.prems"(1) by simp
      ultimately have "heap_upto (fst (down_loop (Swap h i (child h i n)) (child h i n) n)) n"
        using "1.IH"[OF refl _ refl] nc True by (simp add: child_def)
      with eq show ?thesis by simp
    qed
  qed
qed




lemma parent_less: "0 < (c::nat) \<Longrightarrow> (c - 1) div 2 < c"
  by arith

lemma up_unfold:
  "up h j = (if (j - 1) div 2 = j \<or> \<not> Less h j ((j - 1) div 2) then h
             else up (Swap h ((j - 1) div 2) j) ((j - 1) div 2))"
  by (subst up.simps) (simp add: Let_def)

lemma up_inv_stop:
  assumes inv: "up_inv h n j" and stop: "(j - 1) div 2 = j \<or> \<not> Less h j ((j - 1) div 2)"
  shows "heap_upto h n"
proof (rule heap_uptoI)
  fix c assume c: "0 < c" "c < n"
  show "Priority (h ! c) \<le> Priority (h ! ((c - 1) div 2))"
  proof (cases "c = j")
    case False
    with inv c show ?thesis by (rule up_inv_D1)
  next
    case True
    with c have "(j - 1) div 2 \<noteq> j" by auto
    with stop True show ?thesis by (simp add: Less_def)
  qed
qed

lemma up_inv_step:
  assumes len: "n \<le> length h" and jn: "j < n"
    and inv: "up_inv h n j"
    and i: "i = (j - 1) div 2" and ne: "i \<noteq> j"
    and less: "Less h j i"
  shows "up_inv (Swap h i j) n i"
  unfolding up_inv_def
proof (intro ballI conjI impI)
  have ij: "i < j" "0 < j" using i ne by auto
  have il: "i < length h" "j < length h" using ij jn len by auto
  have pij: "Priority (h ! i) < Priority (h ! j)" using less by (simp add: Less_def)
  {
    fix c assume "c \<in> {1..<n}" and ci: "c \<noteq> i"
    then have c: "0 < c" "c < n" by auto
    have cl: "c < length h" "(c - 1) div 2 < length h" using c len by auto
    show "Priority (Swap h i j ! c) \<le> Priority (Swap h i j ! ((c - 1) div 2))"
    proof (cases "c = j")
      case True
      with pij il i ne show ?thesis by (simp add: Priority_Swap)
    next
      case cj: False
      have le: "Priority (h ! c) \<le> Priority (h ! ((c - 1) div 2))"
        using up_inv_D1[OF inv c cj] .
      show ?thesis
      proof (cases "(c - 1) div 2 = i")
        case True
        with le pij ci cj il cl show ?thesis by (simp add: Priority_Swap)
      next
        case pi: False
        show ?thesis
        proof (cases "(c - 1) div 2 = j")
          case True
          have "Priority (h ! c) \<le> Priority (h ! ((j - 1) div 2))"
            using up_inv_D2[OF inv c True ij(2)] .
          with True i ci cj il cl ne show ?thesis by (simp add: Priority_Swap)
        next
          case False
          with pi le ci cj il cl show ?thesis by (simp add: Priority_Swap)
        qed
      qed
    qed
  next
    fix c assume "c \<in> {1..<n}" and pc: "(c - 1) div 2 = i \<and> 0 < i"
    then have c: "0 < c" "c < n" by auto
    have cl: "c < length h" using c len by auto
    have ci: "c \<noteq> i" using pc c by auto
    have "(i - 1) div 2 < i" using pc parent_less[of i] by simp
    then have pil: "(i - 1) div 2 < length h" "(i - 1) div 2 \<noteq> i" "(i - 1) div 2 \<noteq> j"
      using il ij by auto
    have i_le: "Priority (h ! i) \<le> Priority (h ! ((i - 1) div 2))"
      using up_inv_D1[OF inv _ _ ne] pc ij jn by simp
    show "Priority (Swap h i j ! c) \<le> Priority (Swap h i j ! ((i - 1) div 2))"
    proof (cases "c = j")
      case True
      with i_le pil il show ?thesis by (simp add: Priority_Swap)
    next
      case False
      have "Priority (h ! c) \<le> Priority (h ! ((c - 1) div 2))"
        using up_inv_D1[OF inv c False] .
      with pc i_le False ci pil il cl show ?thesis by (simp add: Priority_Swap)
    qed
  }
qed

lemma up_heap:
  "n \<le> length h \<Longrightarrow> j < n \<Longrightarrow> up_inv h n j \<Longrightarrow> heap_upto (up h j) n"
proof (induction h j rule: up.induct)
  case (1 h j)
  let ?i = "(j - 1) div 2"
  show ?case
  proof (cases "?i = j \<or> \<not> Less h j ?i")
    case True
    then have "up h j = h" by (subst up_unfold) simp
    with up_inv_stop[OF "1.prems"(3) True] show ?thesis by simp
  next
    case False
    then have eq: "up h j = up (Swap h ?i j) ?i" by (subst up_unfold) simp
    from False have ne: "?i \<noteq> j" and less: "Less h j ?i" by auto
    have "up_inv (Swap h ?i j) n ?i"
      using up_inv_step[OF "1.prems" refl ne less] .
    moreover have "?i < n" using "1.prems"(2) by auto
    ultimately have "heap_upto (up (Swap h ?i j) ?i) n"
      using "1.IH"[OF refl] False "1.prems"(1) by simp
    with eq show ?thesis by simp
  qed
qed

lemma heap_upto_up_inv: "heap_upto h n \<Longrightarrow> up_inv h n j"
proof -
  assume hp: "heap_upto h n"
  show ?thesis
    unfolding up_inv_def
  proof (intro ballI conjI impI)
    fix c assume "c \<in> {1..<n}"
    then have c: "0 < c" "c < n" by auto
    show "Priority (h ! c) \<le> Priority (h ! ((c - 1) div 2))"
      using heap_uptoD[OF hp c] .
    assume pc: "(c - 1) div 2 = j \<and> 0 < j"
    then have "j < n" using c by auto
    with pc have "Priority (h ! j) \<le> Priority (h ! ((j - 1) div 2))"
      using heap_uptoD[OF hp, of j] by simp
    moreover have "Priority (h ! c) \<le> Priority (h ! j)"
      using heap_uptoD[OF hp c] pc by simp
    ultimately show "Priority (h ! c) \<le> Priority (h ! ((j - 1) div 2))" by simp
  qed
qed

subsection \<open>Slots the loops do not touch\<close>

lemma up_nth_above: "j < k \<Longrightarrow> up h j ! k = h ! k"
proof (induction h j rule: up.induct)
  case (1 h j)
  let ?i = "(j - 1) div 2"
  show ?case
  proof (cases "?i = j \<or> \<not> Less h j ?i")
    case True
    then show ?thesis by (subst up_unfold) simp
  next
    case False
    then have eq: "up h j = up (Swap h ?i j) ?i" by (subst up_unfold) simp
    have "?i < k" "k \<noteq> ?i" "k \<noteq> j" using "1.prems" by auto
    then have "up (Swap h ?i j) ?i ! k = h ! k"
      using "1.IH"[OF refl] False by (simp add: Swap_nth_other)
    with eq show ?thesis by simp
  qed
qed

lemma down_loop_nth_outside:
  "k < i \<or> n \<le> k \<Longrightarrow> fst (down_loop h i n) ! k = h ! k"
proof (induction h i n rule: down_loop.induct)
  case (1 h i n)
  show ?case
  proof (cases "n \<le> 2 * i + 1 \<or> \<not> Less h (child h i n) i")
    case True
    then show ?thesis by (subst down_loop_unfold) auto
  next
    case False
    then have eq: "down_loop h i n = down_loop (Swap h i (child h i n)) (child h i n) n"
      by (subst down_loop_unfold) simp
    from False have j1: "2 * i + 1 < n" by simp
    have "k \<noteq> i" "k \<noteq> child h i n" "k < child h i n \<or> n \<le> k"
      using "1.prems" child_less[OF j1, of h] child_gt[of i h n] by auto
    then have "fst (down_loop (Swap h i (child h i n)) (child h i n) n) ! k = h ! k"
      using "1.IH"[OF refl _ refl] False by (simp add: Swap_nth_other child_def)
    with eq show ?thesis by simp
  qed
qed

lemma down_loop_snd_ge: "i \<le> snd (down_loop h i n)"
proof (induction h i n rule: down_loop.induct)
  case (1 h i n)
  show ?case
  proof (cases "n \<le> 2 * i + 1 \<or> \<not> Less h (child h i n) i")
    case True
    then show ?thesis by (subst down_loop_unfold) auto
  next
    case False
    then have eq: "down_loop h i n = down_loop (Swap h i (child h i n)) (child h i n) n"
      by (subst down_loop_unfold) simp
    have "child h i n \<le> snd (down_loop (Swap h i (child h i n)) (child h i n) n)"
      using "1.IH"[OF refl _ refl] False by (simp add: child_def)
    with eq child_gt[of i h n] show ?thesis by simp
  qed
qed

lemma down_loop_not_moved:
  assumes "snd (down_loop h i n) = i"
  shows "fst (down_loop h i n) = h"
proof (cases "n \<le> 2 * i + 1 \<or> \<not> Less h (child h i n) i")
  case True
  then show ?thesis by (subst down_loop_unfold) auto
next
  case False
  then have eq: "down_loop h i n = down_loop (Swap h i (child h i n)) (child h i n) n"
    by (subst down_loop_unfold) simp
  have "child h i n \<le> snd (down_loop (Swap h i (child h i n)) (child h i n) n)"
    by (rule down_loop_snd_ge)
  with eq assms child_gt[of i h n] show ?thesis by simp
qed




lemma except_inv_D1:
  "except_inv h n i \<Longrightarrow> 0 < c \<Longrightarrow> c < n \<Longrightarrow> c \<noteq> i \<Longrightarrow> (c - 1) div 2 \<noteq> i \<Longrightarrow>
     Priority (h ! c) \<le> Priority (h ! ((c - 1) div 2))"
  by (simp add: except_inv_def)

lemma except_inv_D2:
  "except_inv h n i \<Longrightarrow> 0 < c \<Longrightarrow> c < n \<Longrightarrow> (c - 1) div 2 = i \<Longrightarrow> 0 < i \<Longrightarrow>
     Priority (h ! c) \<le> Priority (h ! ((i - 1) div 2))"
  by (simp add: except_inv_def)

lemma down_or_up_eq:
  "down_or_up h i n =
     (if i < snd (down_loop h i n) then fst (down_loop h i n) else up (fst (down_loop h i n)) i)"
  by (simp add: down_or_up_def down_def split_beta)

lemma down_or_up_heap:
  assumes len: "n \<le> length h" and i: "i < n" and inv: "except_inv h n i"
  shows "heap_upto (down_or_up h i n) n"
proof (cases "i = 0 \<or> Priority (h ! i) \<le> Priority (h ! ((i - 1) div 2))")
  case True
  have "down_inv h n i"
    unfolding down_inv_def
  proof (intro ballI conjI impI)
    fix c assume "c \<in> {1..<n}"
    then have c: "0 < c" "c < n" by auto
    {
      assume pc: "(c - 1) div 2 \<noteq> i"
      show "Priority (h ! c) \<le> Priority (h ! ((c - 1) div 2))"
      proof (cases "c = i")
        case False
        then show ?thesis using except_inv_D1[OF inv c False pc] by simp
      next
        case ci: True
        with True c show ?thesis by simp
      qed
    next
      assume "(c - 1) div 2 = i \<and> 0 < i"
      then show "Priority (h ! c) \<le> Priority (h ! ((i - 1) div 2))"
        using except_inv_D2[OF inv c] by simp
    }
  qed
  then have hp: "heap_upto (fst (down_loop h i n)) n"
    using down_loop_heap[OF len] by simp
  show ?thesis
  proof (cases "i < snd (down_loop h i n)")
    case True
    with hp show ?thesis by (simp add: down_or_up_eq)
  next
    case False
    then have "snd (down_loop h i n) = i"
      using down_loop_snd_ge[of i h n] by simp
    then have same: "fst (down_loop h i n) = h" by (rule down_loop_not_moved)
    with hp have "heap_upto h n" by simp
    then have "heap_upto (up h i) n"
      using up_heap[OF len i] heap_upto_up_inv by blast
    with False same show ?thesis by (simp add: down_or_up_eq)
  qed
next
  case False
  then have pos: "0 < i" and gt: "Priority (h ! ((i - 1) div 2)) < Priority (h ! i)" by auto
  have stay: "down_loop h i n = (h, i)"
  proof (cases "n \<le> 2 * i + 1")
    case True
    then show ?thesis by (subst down_loop_unfold) simp
  next
    case False
    then have ch: "child h i n < n" "0 < child h i n" "(child h i n - 1) div 2 = i"
      using child_less[of i n h] child_gt[of i h n] child_parent[of h i n] by auto
    have "Priority (h ! child h i n) \<le> Priority (h ! ((i - 1) div 2))"
      using except_inv_D2[OF inv ch(2,1,3) pos] .
    with gt have "\<not> Less h (child h i n) i" by (simp add: Less_def)
    then show ?thesis by (subst down_loop_unfold) simp
  qed
  have "up_inv h n i"
    unfolding up_inv_def
  proof (intro ballI conjI impI)
    fix c assume "c \<in> {1..<n}"
    then have c: "0 < c" "c < n" by auto
    {
      assume ci: "c \<noteq> i"
      show "Priority (h ! c) \<le> Priority (h ! ((c - 1) div 2))"
      proof (cases "(c - 1) div 2 = i")
        case False
        then show ?thesis using except_inv_D1[OF inv c ci False] by simp
      next
        case True
        with gt except_inv_D2[OF inv c True pos] show ?thesis by simp
      qed
    next
      assume "(c - 1) div 2 = i \<and> 0 < i"
      then show "Priority (h ! c) \<le> Priority (h ! ((i - 1) div 2))"
        using except_inv_D2[OF inv c] by simp
    }
  qed
  then have "heap_upto (up h i) n" by (rule up_heap[OF len i])
  with stay show ?thesis by (simp add: down_or_up_eq)
qed

lemma down_or_up_nth_outside:
  assumes "i < n" "n \<le> k"
  shows "down_or_up h i n ! k = h ! k"
proof -
  have "fst (down_loop h i n) ! k = h ! k"
    using assms by (simp add: down_loop_nth_outside)
  moreover have "up (fst (down_loop h i n)) i ! k = fst (down_loop h i n) ! k"
    using assms by (simp add: up_nth_above)
  ultimately show ?thesis by (simp add: down_or_up_eq)
qed

lemma length_down_or_up [simp]: "length (down_or_up h i n) = length h"
  by (simp add: down_or_up_eq)

subsection \<open>The loops permute the entries\<close>

lemma entry_index_update [simp]: "entry (x\<lparr>index := k\<rparr>) = entry x"
  by (simp add: entry_def)

lemma contents_Swap:
  assumes "i < length h" "j < length h"
  shows "contents (Swap h i j) = contents h"
proof -
  let ?es = "map entry h"
  have "map entry (Swap h i j) = ?es[j := ?es ! i, i := ?es ! j]"
    using assms by (intro nth_equalityI) (auto simp: Swap_nth nth_list_update)
  moreover have "mset (?es[j := ?es ! i, i := ?es ! j]) = mset ?es"
    using assms by (intro mset_swap) simp_all
  ultimately show ?thesis
    unfolding contents_def by simp
qed

lemma contents_up: "j < length h \<Longrightarrow> contents (up h j) = contents h"
proof (induction h j rule: up.induct)
  case (1 h j)
  let ?i = "(j - 1) div 2"
  show ?case
  proof (cases "?i = j \<or> \<not> Less h j ?i")
    case True
    then show ?thesis by (subst up_unfold) simp
  next
    case False
    then have eq: "up h j = up (Swap h ?i j) ?i" by (subst up_unfold) simp
    have il: "?i < length h" using "1.prems" by auto
    then have "contents (up (Swap h ?i j) ?i) = contents (Swap h ?i j)"
      using "1.IH"[OF refl] False by simp
    with eq il "1.prems" show ?thesis by (simp add: contents_Swap)
  qed
qed

lemma contents_down_loop: "n \<le> length h \<Longrightarrow> contents (fst (down_loop h i n)) = contents h"
proof (induction h i n rule: down_loop.induct)
  case (1 h i n)
  show ?case
  proof (cases "n \<le> 2 * i + 1 \<or> \<not> Less h (child h i n) i")
    case True
    then show ?thesis by (subst down_loop_unfold) auto
  next
    case False
    then have eq: "down_loop h i n = down_loop (Swap h i (child h i n)) (child h i n) n"
      by (subst down_loop_unfold) simp
    from False have j1: "2 * i + 1 < n" by simp
    have il: "i < length h" "child h i n < length h"
      using "1.prems" child_less[OF j1, of h] child_gt[of i h n] by auto
    have "contents (fst (down_loop (Swap h i (child h i n)) (child h i n) n))
          = contents (Swap h i (child h i n))"
      using "1.IH"[OF refl _ refl] False "1.prems" by (simp add: child_def)
    with eq il show ?thesis by (simp add: contents_Swap)
  qed
qed

lemma contents_down_or_up:
  "n \<le> length h \<Longrightarrow> i < n \<Longrightarrow> contents (down_or_up h i n) = contents h"
  by (simp add: down_or_up_eq contents_up contents_down_loop)

subsection \<open>The loops keep the index fields right\<close>

lemma pos_okD: "pos_ok h \<Longrightarrow> i < length h \<Longrightarrow> index (h ! i) = int i"
  by (simp add: pos_ok_def)

lemma pos_okI: "(\<And>i. i < length h \<Longrightarrow> index (h ! i) = int i) \<Longrightarrow> pos_ok h"
  by (simp add: pos_ok_def)

lemma pos_ok_Swap:
  assumes "pos_ok h" "i < length h" "j < length h"
  shows "pos_ok (Swap h i j)"
proof (rule pos_okI)
  fix k assume "k < length (Swap h i j)"
  then have k: "k < length h" by simp
  show "index (Swap h i j ! k) = int k"
    using assms k by (simp add: Swap_nth pos_okD)
qed

lemma pos_ok_up: "pos_ok h \<Longrightarrow> j < length h \<Longrightarrow> pos_ok (up h j)"
proof (induction h j rule: up.induct)
  case (1 h j)
  let ?i = "(j - 1) div 2"
  show ?case
  proof (cases "?i = j \<or> \<not> Less h j ?i")
    case True
    with "1.prems" show ?thesis by (subst up_unfold) simp
  next
    case False
    then have eq: "up h j = up (Swap h ?i j) ?i" by (subst up_unfold) simp
    have il: "?i < length h" using "1.prems" by auto
    then have "pos_ok (up (Swap h ?i j) ?i)"
      using "1.IH"[OF refl] False "1.prems" by (simp add: pos_ok_Swap)
    with eq show ?thesis by simp
  qed
qed

lemma pos_ok_down_loop: "pos_ok h \<Longrightarrow> n \<le> length h \<Longrightarrow> pos_ok (fst (down_loop h i n))"
proof (induction h i n rule: down_loop.induct)
  case (1 h i n)
  show ?case
  proof (cases "n \<le> 2 * i + 1 \<or> \<not> Less h (child h i n) i")
    case True
    with "1.prems" show ?thesis by (subst down_loop_unfold) auto
  next
    case False
    then have eq: "down_loop h i n = down_loop (Swap h i (child h i n)) (child h i n) n"
      by (subst down_loop_unfold) simp
    from False have j1: "2 * i + 1 < n" by simp
    have il: "i < length h" "child h i n < length h"
      using "1.prems" child_less[OF j1, of h] child_gt[of i h n] by auto
    have "pos_ok (fst (down_loop (Swap h i (child h i n)) (child h i n) n))"
      using "1.IH"[OF refl _ refl] False "1.prems" il by (simp add: child_def pos_ok_Swap)
    with eq show ?thesis by simp
  qed
qed

lemma pos_ok_down_or_up:
  "pos_ok h \<Longrightarrow> n \<le> length h \<Longrightarrow> i < n \<Longrightarrow> pos_ok (down_or_up h i n)"
  by (simp add: down_or_up_eq pos_ok_up pos_ok_down_loop)




lemma heap_ok_iff: "heap_ok h \<longleftrightarrow> heap_upto h (length h)"
  by (simp add: heap_ok_def heap_upto_def)

lemma heap_okD:
  "heap_ok h \<Longrightarrow> 0 < c \<Longrightarrow> c < length h \<Longrightarrow>
     Priority (h ! c) \<le> Priority (h ! ((c - 1) div 2))"
  by (simp add: heap_ok_def)

lemma heap_upto_take:
  assumes "n \<le> length h" "heap_upto h n"
  shows "heap_ok (take n h)"
  unfolding heap_ok_iff
proof (rule heap_uptoI)
  fix c assume c: "0 < c" "c < length (take n h)"
  then have "c < n" "(c - 1) div 2 < n" using assms(1) by auto
  with heap_uptoD[OF assms(2) c(1)] show
    "Priority (take n h ! c) \<le> Priority (take n h ! ((c - 1) div 2))" by simp
qed

lemma heap_upto_mono: "heap_upto h n \<Longrightarrow> m \<le> n \<Longrightarrow> heap_upto h m"
  by (simp add: heap_upto_def)

lemma heap_root_max:
  assumes "heap_upto h n"
  shows "k < n \<Longrightarrow> Priority (h ! k) \<le> Priority (h ! 0)"
proof (induction k rule: less_induct)
  case (less k)
  show ?case
  proof (cases "k = 0")
    case True
    then show ?thesis by simp
  next
    case False
    then have k: "0 < k" by simp
    have "(k - 1) div 2 < k" using parent_less[OF k] .
    with less have "Priority (h ! ((k - 1) div 2)) \<le> Priority (h ! 0)" by simp
    with heap_uptoD[OF assms k less.prems] show ?thesis by simp
  qed
qed

lemma pos_ok_take: "pos_ok h \<Longrightarrow> pos_ok (take n h)"
  by (simp add: pos_ok_def)

lemma contents_take_last:
  assumes "h \<noteq> []"
  shows "contents h = add_mset (entry (h ! (length h - 1))) (contents (take (length h - 1) h))"
proof -
  have "h = take (length h - 1) h @ [h ! (length h - 1)]"
    using assms by (metis append_butlast_last_id butlast_conv_take last_conv_nth)
  then have "map entry h = map entry (take (length h - 1) h) @ [entry (h ! (length h - 1))]"
    by (metis list.simps(8,9) map_append)
  then show ?thesis
    unfolding contents_def by (metis mset.simps(2) mset_append union_mset_add_mset_right add.right_neutral mset.simps(1))
qed

lemma QItems_Pop_eq:
  "h \<noteq> [] \<Longrightarrow>
     QItems_Pop h = Some (take (length h - 1) h, (h ! (length h - 1))\<lparr>index := - 1\<rparr>)"
  by (simp add: QItems_Pop_def Let_def)

subsection \<open>Push\<close>

lemma length_QItems_Push [simp]: "length (QItems_Push h x) = Suc (length h)"
  by (simp add: QItems_Push_def Let_def)

lemma length_Push [simp]: "length (Push h x) = Suc (length h)"
  by (simp add: Push_def heap_Push_def Let_def)

lemma contents_Push: "contents (Push h x) = add_mset (entry x) (contents h)"
proof -
  have "contents (QItems_Push h x) = add_mset (entry x) (contents h)"
    by (simp add: QItems_Push_def Let_def contents_def)
  then show ?thesis
    by (simp add: Push_def heap_Push_def Let_def contents_up)
qed

lemma pos_ok_Push: "pos_ok h \<Longrightarrow> pos_ok (Push h x)"
proof -
  assume ok: "pos_ok h"
  have "pos_ok (QItems_Push h x)"
  proof (rule pos_okI)
    fix i assume "i < length (QItems_Push h x)"
    then show "index (QItems_Push h x ! i) = int i"
      using pos_okD[OF ok, of i] by (auto simp: QItems_Push_def Let_def nth_append)
  qed
  then show ?thesis
    by (simp add: Push_def heap_Push_def Let_def pos_ok_up)
qed

lemma heap_ok_Push:
  assumes ok: "heap_ok h"
  shows "heap_ok (Push h x)"
proof -
  let ?h1 = "QItems_Push h x" and ?n = "length h"
  have nth: "Priority (?h1 ! c) = Priority (h ! c)" if "c < ?n" for c
    using that by (simp add: QItems_Push_def Let_def nth_append)
  have "up_inv ?h1 (Suc ?n) ?n"
    unfolding up_inv_def
  proof (intro ballI conjI impI)
    fix c assume "c \<in> {1..<Suc ?n}"
    then have c: "0 < c" "c < Suc ?n" by auto
    {
      assume "c \<noteq> ?n"
      with c have cn: "c < ?n" by simp
      then have pn: "(c - 1) div 2 < ?n" by auto
      have "Priority (h ! c) \<le> Priority (h ! ((c - 1) div 2))"
        using heap_okD[OF ok c(1) cn] .
      with nth[OF cn] nth[OF pn] show "Priority (?h1 ! c) \<le> Priority (?h1 ! ((c - 1) div 2))"
        by simp
    next
      assume "(c - 1) div 2 = ?n \<and> 0 < ?n"
      with c have False by auto
      then show "Priority (?h1 ! c) \<le> Priority (?h1 ! ((?n - 1) div 2))" ..
    }
  qed
  then have "heap_upto (up ?h1 ?n) (Suc ?n)"
    by (intro up_heap) simp_all
  then show ?thesis
    by (simp add: Push_def heap_Push_def Let_def heap_ok_iff)
qed

subsection \<open>heap.Pop\<close>

lemma heap_Pop_eq:
  assumes "h \<noteq> []"
  shows "heap_Pop h =
     Some (take (length h - 1) (fst (down_loop (Swap h 0 (length h - 1)) 0 (length h - 1))),
           (h ! 0)\<lparr>index := - 1\<rparr>)"
proof -
  let ?n = "length h - 1"
  let ?h2 = "fst (down_loop (Swap h 0 ?n) 0 ?n)"
  have n: "?n < length h" "0 < length h" using assms by auto
  have "?h2 ! ?n = Swap h 0 ?n ! ?n" by (simp add: down_loop_nth_outside)
  also have "\<dots> = (h ! 0)\<lparr>index := int ?n\<rparr>" using n by (simp add: Swap_nth)
  finally have last: "?h2 ! ?n = (h ! 0)\<lparr>index := int ?n\<rparr>" .
  have "?h2 \<noteq> []" using assms by (metis length_0_conv length_down_loop length_Swap)
  then have "QItems_Pop ?h2 = Some (take ?n ?h2, (?h2 ! ?n)\<lparr>index := - 1\<rparr>)"
    using QItems_Pop_eq[of ?h2] by simp
  with last assms show ?thesis
    by (simp add: heap_Pop_def Let_def down_def split_beta)
qed

lemma heap_Pop_contents:
  assumes "heap_Pop h = Some (h', x)"
  shows "contents h = add_mset (entry x) (contents h')"
    and "length h = Suc (length h')"
    and "entry x = entry (h ! 0)" and "index x = - 1"
proof -
  from assms have ne: "h \<noteq> []" by (auto simp: heap_Pop_def split: if_splits)
  let ?n = "length h - 1"
  let ?h1 = "Swap h 0 ?n"
  let ?h2 = "fst (down_loop ?h1 0 ?n)"
  have n: "?n < length h" "0 < length h" using ne by auto
  from assms heap_Pop_eq[OF ne] have h': "h' = take ?n ?h2" and x: "x = (h ! 0)\<lparr>index := - 1\<rparr>"
    by simp_all
  show "entry x = entry (h ! 0)" "index x = - 1" using x by simp_all
  show "length h = Suc (length h')" using h' n by simp
  have "?h2 ! ?n = ?h1 ! ?n" by (simp add: down_loop_nth_outside)
  also have "\<dots> = (h ! 0)\<lparr>index := int ?n\<rparr>" using n by (simp add: Swap_nth)
  finally have last: "entry (?h2 ! ?n) = entry x" using x by simp
  have "?h2 \<noteq> []" using ne by (metis length_0_conv length_down_loop length_Swap)
  from contents_take_last[OF this] last h'
  have "contents ?h2 = add_mset (entry x) (contents h')" by simp
  moreover have "contents ?h2 = contents h"
    using n by (simp add: contents_down_loop contents_Swap)
  ultimately show "contents h = add_mset (entry x) (contents h')" by simp
qed

lemma heap_Pop_pos_ok:
  assumes "heap_Pop h = Some (h', x)" "pos_ok h"
  shows "pos_ok h'"
proof -
  from assms have ne: "h \<noteq> []" by (auto simp: heap_Pop_def split: if_splits)
  then have n: "length h - 1 < length h" "0 < length h" by auto
  from assms heap_Pop_eq[OF ne]
  have h': "h' = take (length h - 1) (fst (down_loop (Swap h 0 (length h - 1)) 0 (length h - 1)))"
    by simp
  show ?thesis
    unfolding h' using n assms(2)
    by (intro pos_ok_take pos_ok_down_loop pos_ok_Swap) simp_all
qed

lemma heap_Pop_heap_ok:
  assumes "heap_Pop h = Some (h', x)" "heap_ok h"
  shows "heap_ok h'"
proof -
  from assms have ne: "h \<noteq> []" by (auto simp: heap_Pop_def split: if_splits)
  let ?n = "length h - 1"
  let ?h1 = "Swap h 0 ?n"
  have n: "?n < length h" "0 < length h" using ne by auto
  from assms heap_Pop_eq[OF ne]
  have h': "h' = take ?n (fst (down_loop ?h1 0 ?n))" by simp
  have "down_inv ?h1 ?n 0"
    unfolding down_inv_def
  proof (intro ballI conjI impI)
    fix c assume "c \<in> {1..<?n}"
    then have c: "0 < c" "c < ?n" by auto
    {
      assume pc: "(c - 1) div 2 \<noteq> 0"
      have "(c - 1) div 2 < ?n" using c by auto
      with c pc n have "Priority (?h1 ! c) = Priority (h ! c)"
        "Priority (?h1 ! ((c - 1) div 2)) = Priority (h ! ((c - 1) div 2))"
        by (simp_all add: Swap_nth_other)
      moreover have "Priority (h ! c) \<le> Priority (h ! ((c - 1) div 2))"
        using heap_okD[OF assms(2) c(1)] c(2) by simp
      ultimately show "Priority (?h1 ! c) \<le> Priority (?h1 ! ((c - 1) div 2))" by simp
    next
      assume "(c - 1) div 2 = 0 \<and> (0::nat) < 0"
      then show "Priority (?h1 ! c) \<le> Priority (?h1 ! ((0 - 1) div 2))" by simp
    }
  qed
  then have "heap_upto (fst (down_loop ?h1 0 ?n)) ?n"
    by (intro down_loop_heap) simp_all
  then show ?thesis
    unfolding h' by (intro heap_upto_take) simp_all
qed

subsection \<open>heap.Remove\<close>

lemma heap_Remove_eq:
  assumes "0 \<le> i" "i < int (length h)"
  shows "heap_Remove h i =
     Some (take (length h - 1)
             (if length h - 1 \<noteq> nat i
              then down_or_up (Swap h (nat i) (length h - 1)) (nat i) (length h - 1) else h),
           (h ! nat i)\<lparr>index := - 1\<rparr>)"
proof (cases "length h - 1 = nat i")
  case True
  have "h \<noteq> []" using assms by auto
  from QItems_Pop_eq[OF this] True assms show ?thesis
    by (simp add: heap_Remove_def Let_def)
next
  case False
  let ?n = "length h - 1" and ?i = "nat i"
  let ?h1 = "down_or_up (Swap h ?i ?n) ?i ?n"
  have n: "?n < length h" "?i < length h" "?i < ?n" using assms False by auto
  have "?h1 ! ?n = Swap h ?i ?n ! ?n"
    using n by (simp add: down_or_up_nth_outside)
  also have "\<dots> = (h ! ?i)\<lparr>index := int ?n\<rparr>"
    using n by (simp add: Swap_nth)
  finally have last: "?h1 ! ?n = (h ! ?i)\<lparr>index := int ?n\<rparr>" .
  have "?h1 \<noteq> []" using n by (metis length_down_or_up length_Swap list.size(3) not_less_zero)
  from QItems_Pop_eq[OF this]
  have "QItems_Pop ?h1 = Some (take ?n ?h1, (?h1 ! ?n)\<lparr>index := - 1\<rparr>)"
    by simp
  with last have "QItems_Pop ?h1 = Some (take ?n ?h1, (h ! ?i)\<lparr>index := - 1\<rparr>)"
    by simp
  with False assms show ?thesis
    by (simp add: heap_Remove_def Let_def)
qed




lemma heap_Remove_props:
  assumes "heap_Remove h i = Some (h', x)"
  shows "0 \<le> i" and "i < int (length h)"
    and "length h = Suc (length h')"
    and "contents h = add_mset (entry x) (contents h')"
    and "x = (h ! nat i)\<lparr>index := - 1\<rparr>"
proof -
  from assms show r: "0 \<le> i" "i < int (length h)"
    by (auto simp: heap_Remove_def split: if_splits)
  let ?n = "length h - 1" and ?i = "nat i"
  define h1 where "h1 = (if ?n \<noteq> ?i then down_or_up (Swap h ?i ?n) ?i ?n else h)"
  have n: "?n < length h" "?i < length h" "?i \<le> ?n" using r by auto
  from assms heap_Remove_eq[OF r]
  have h': "h' = take ?n h1" and x: "x = (h ! ?i)\<lparr>index := - 1\<rparr>"
    unfolding h1_def by simp_all
  show "x = (h ! nat i)\<lparr>index := - 1\<rparr>" by (rule x)
  have len: "length h1 = length h" unfolding h1_def by simp
  have "length h' = min (length h) ?n" unfolding h' length_take len ..
  then show "length h = Suc (length h')" using n by arith
  have last: "entry (h1 ! ?n) = entry x"
  proof (cases "?n = ?i")
    case True
    with x show ?thesis unfolding h1_def by simp
  next
    case False
    with n have "h1 ! ?n = Swap h ?i ?n ! ?n"
      unfolding h1_def by (simp add: down_or_up_nth_outside)
    also have "\<dots> = (h ! ?i)\<lparr>index := int ?n\<rparr>" using n by (simp add: Swap_nth)
    finally show ?thesis using x by simp
  qed
  have "h1 \<noteq> []" using n len by (metis list.size(3) not_less_zero)
  from contents_take_last[OF this]
  have "contents h1 = add_mset (entry (h1 ! ?n)) (contents (take ?n h1))"
    unfolding len .
  then have "contents h1 = add_mset (entry x) (contents h')"
    unfolding last h' .
  moreover have "contents h1 = contents h"
  proof (cases "?n = ?i")
    case True
    then show ?thesis unfolding h1_def by simp
  next
    case False
    with n have i: "?i < ?n" by simp
    have "contents (down_or_up (Swap h ?i ?n) ?i ?n) = contents (Swap h ?i ?n)"
      using i by (intro contents_down_or_up) simp_all
    with False n show ?thesis unfolding h1_def by (simp add: contents_Swap)
  qed
  ultimately show "contents h = add_mset (entry x) (contents h')" by simp
qed

lemma heap_Remove_pos_ok:
  assumes "heap_Remove h i = Some (h', x)" "pos_ok h"
  shows "pos_ok h'"
proof -
  have r: "0 \<le> i" "i < int (length h)" using heap_Remove_props(1,2)[OF assms(1)] .
  let ?n = "length h - 1" and ?i = "nat i"
  let ?h1 = "if ?n \<noteq> ?i then down_or_up (Swap h ?i ?n) ?i ?n else h"
  have n: "?n < length h" "?i < length h" "?i \<le> ?n" using r by auto
  from assms heap_Remove_eq[OF r] have h': "h' = take ?n ?h1" by simp
  have "pos_ok ?h1"
  proof (cases "?n = ?i")
    case True
    with assms(2) show ?thesis by simp
  next
    case False
    with n have i: "?i < ?n" by simp
    have "pos_ok (Swap h ?i ?n)" using assms(2) n by (intro pos_ok_Swap)
    then have "pos_ok (down_or_up (Swap h ?i ?n) ?i ?n)"
      using i by (intro pos_ok_down_or_up) simp_all
    with False show ?thesis by simp
  qed
  then show ?thesis unfolding h' by (rule pos_ok_take)
qed

lemma heap_Remove_heap_ok:
  assumes "heap_Remove h i = Some (h', x)" "heap_ok h"
  shows "heap_ok h'"
proof -
  have r: "0 \<le> i" "i < int (length h)" using heap_Remove_props(1,2)[OF assms(1)] .
  let ?n = "length h - 1" and ?i = "nat i"
  let ?h1 = "if ?n \<noteq> ?i then down_or_up (Swap h ?i ?n) ?i ?n else h"
  have n: "?n < length h" "?i < length h" "?i \<le> ?n" using r by auto
  from assms heap_Remove_eq[OF r] have h': "h' = take ?n ?h1" by simp
  have "heap_upto ?h1 ?n"
  proof (cases "?n = ?i")
    case True
    with assms(2) show ?thesis by (simp add: heap_ok_iff heap_upto_mono)
  next
    case False
    with n have i: "?i < ?n" by simp
    let ?s = "Swap h ?i ?n"
    have "except_inv ?s ?n ?i"
      unfolding except_inv_def
    proof (intro ballI conjI impI)
      fix c assume "c \<in> {1..<?n}"
      then have c: "0 < c" "c < ?n" by auto
      have le: "Priority (h ! c) \<le> Priority (h ! ((c - 1) div 2))"
        using heap_okD[OF assms(2) c(1)] c(2) by simp
      {
        assume a: "c \<noteq> ?i \<and> (c - 1) div 2 \<noteq> ?i"
        have "(c - 1) div 2 < ?n" using c by auto
        with a c have "?s ! c = h ! c" "?s ! ((c - 1) div 2) = h ! ((c - 1) div 2)"
          by (simp_all add: Swap_nth_other)
        with le show "Priority (?s ! c) \<le> Priority (?s ! ((c - 1) div 2))" by simp
      next
        assume a: "(c - 1) div 2 = ?i \<and> 0 < ?i"
        then have pi: "(?i - 1) div 2 < ?i" using parent_less[of ?i] by simp
        have "c \<noteq> ?i" using a c by auto
        with c pi i have "?s ! c = h ! c" "?s ! ((?i - 1) div 2) = h ! ((?i - 1) div 2)"
          by (simp_all add: Swap_nth_other)
        moreover have "Priority (h ! ?i) \<le> Priority (h ! ((?i - 1) div 2))"
          using heap_okD[OF assms(2), of ?i] a n by simp
        ultimately show "Priority (?s ! c) \<le> Priority (?s ! ((?i - 1) div 2))"
          using le a by simp
      }
    qed
    then have "heap_upto (down_or_up ?s ?i ?n) ?n"
      using i by (intro down_or_up_heap) simp_all
    with False show ?thesis by simp
  qed
  moreover have len1: "length ?h1 = length h" by simp
  have "?n \<le> length ?h1" unfolding len1 by arith
  ultimately have "heap_ok (take ?n ?h1)" by (rule heap_upto_take[rotated])
  then show ?thesis unfolding h' .
qed

subsection \<open>delete\<close>

lemma delete_cases:
  assumes "delete h idx = Some (h', e)"
  shows "(e = Some IndexOutOfRange \<and> h' = h \<and> int (length h) \<le> idx) \<or>
         (e = None \<and> (\<exists>x. heap_Remove h idx = Some (h', x)))"
  using assms by (auto simp: delete_def Len_def split: if_splits option.splits)

lemma delete_in_range:
  assumes "0 \<le> idx" "idx < int (length h)"
  shows "\<exists>h'. delete h idx = Some (h', None) \<and>
               heap_Remove h idx = Some (h', (h ! nat idx)\<lparr>index := - 1\<rparr>)"
  using assms heap_Remove_eq[OF assms] by (simp add: delete_def Len_def)

lemma delete_total: "0 \<le> idx \<Longrightarrow> \<exists>h' e. delete h idx = Some (h', e)"
  using delete_in_range[of idx h] by (cases "idx < int (length h)") (auto simp: delete_def Len_def)

lemma delete_queue_inv:
  assumes "delete h idx = Some (h', e)" "queue_inv h"
  shows "queue_inv h'"
  using delete_cases[OF assms(1)] assms(2)
  by (auto simp: queue_inv_def dest: heap_Remove_heap_ok heap_Remove_pos_ok)

subsection \<open>update and UpdatePriorityByParentId\<close>

lemma update_queue_inv:
  assumes inv: "queue_inv h" and pos: "pos < length h"
  shows "\<exists>h'. update h pos priority = Some h' \<and> queue_inv h' \<and> length h' = length h"
proof -
  let ?item = "(h ! pos)\<lparr>Priority := priority\<rparr>"
  let ?q1 = "h[pos := ?item]"
  from inv have hk: "heap_ok h" and pk: "pos_ok h" by (simp_all add: queue_inv_def)
  have idx: "index ?item = int pos" using pos_okD[OF pk pos] by simp
  have eq: "update h pos priority = Some (down_or_up ?q1 pos (length h))"
    using pos idx by (simp add: update_def Let_def heap_Fix_def)
  have pk1: "pos_ok ?q1"
  proof (rule pos_okI)
    fix i assume "i < length ?q1"
    then have "i < length h" by simp
    from pos_okD[OF pk this] pos show "index (?q1 ! i) = int i"
      by (cases "i = pos") simp_all
  qed
  have "except_inv ?q1 (length h) pos"
    unfolding except_inv_def
  proof (intro ballI conjI impI)
    fix c assume "c \<in> {1..<length h}"
    then have c: "0 < c" "c < length h" by auto
    have le: "Priority (h ! c) \<le> Priority (h ! ((c - 1) div 2))"
      using heap_okD[OF hk c] .
    {
      assume a: "c \<noteq> pos \<and> (c - 1) div 2 \<noteq> pos"
      then have "?q1 ! c = h ! c" "?q1 ! ((c - 1) div 2) = h ! ((c - 1) div 2)"
        by simp_all
      with le show "Priority (?q1 ! c) \<le> Priority (?q1 ! ((c - 1) div 2))" by simp
    next
      assume a: "(c - 1) div 2 = pos \<and> 0 < pos"
      then have pi: "(pos - 1) div 2 < pos" using parent_less[of pos] by simp
      have "c \<noteq> pos" using a c by auto
      with pi have "?q1 ! c = h ! c" "?q1 ! ((pos - 1) div 2) = h ! ((pos - 1) div 2)"
        by simp_all
      moreover have "Priority (h ! pos) \<le> Priority (h ! ((pos - 1) div 2))"
        using heap_okD[OF hk, of pos] a pos by simp
      ultimately show "Priority (?q1 ! c) \<le> Priority (?q1 ! ((pos - 1) div 2))"
        using le a by simp
    }
  qed
  then have "heap_upto (down_or_up ?q1 pos (length h)) (length h)"
    using pos by (intro down_or_up_heap) simp_all
  then have "heap_ok (down_or_up ?q1 pos (length h))" by (simp add: heap_ok_iff)
  moreover have "pos_ok (down_or_up ?q1 pos (length h))"
    using pk1 pos by (intro pos_ok_down_or_up) simp_all
  ultimately show ?thesis using eq by (simp add: queue_inv_def)
qed

lemma update_body_queue_inv:
  assumes inv: "queue_inv h" and k: "k < length h"
  shows "\<exists>h' c'. update_body parentID priority k (h, c) = Some (h', c') \<and>
                  queue_inv h' \<and> length h' = length h"
proof (cases "ParentID (h ! k) = parentID")
  case False
  with inv show ?thesis by (simp add: update_body_def Let_def)
next
  case True
  from inv have pk: "pos_ok h" by (simp add: queue_inv_def)
  have idx: "index (h ! k) = int k" using pos_okD[OF pk k] .
  from update_queue_inv[OF inv k, of priority] obtain h' where
    "update h k priority = Some h'" "queue_inv h'" "length h' = length h" by blast
  with True idx k show ?thesis by (simp add: update_body_def Let_def)
qed

lemma update_range_queue_inv:
  "queue_inv h \<Longrightarrow> \<forall>k \<in> set ks. k < length h \<Longrightarrow>
     \<exists>h' c'. update_range parentID priority ks (h, c) = Some (h', c') \<and>
             queue_inv h' \<and> length h' = length h"
proof (induction ks arbitrary: h c)
  case Nil
  then show ?case by simp
next
  case (Cons k ks)
  from Cons.prems have k: "k < length h" by simp
  from update_body_queue_inv[OF Cons.prems(1) k, of parentID priority c] obtain h1 c1 where
    b: "update_body parentID priority k (h, c) = Some (h1, c1)" "queue_inv h1" "length h1 = length h"
    by blast
  from Cons.prems b have "\<forall>k \<in> set ks. k < length h1" by simp
  from Cons.IH[OF b(2) this, of c1] b show ?case by auto
qed

lemma UpdatePriorityByParentId_queue_inv:
  assumes "queue_inv h"
  shows "\<exists>h' n. UpdatePriorityByParentId h parentID priority = Some (h', n) \<and>
                queue_inv h' \<and> length h' = length h"
  unfolding UpdatePriorityByParentId_def
  using assms by (intro update_range_queue_inv) simp_all




subsection \<open>Pop\<close>

lemma Pop_nonempty:
  assumes "h \<noteq> []"
  shows "\<exists>h' x. Pop h = Some (h', Some x, None) \<and> heap_Pop h = Some (h', x)"
  using assms heap_Pop_eq[OF assms] by (simp add: Pop_def Len_def)

lemma Pop_cases:
  assumes "Pop h = Some (h', r, e)"
  shows "(h = [] \<and> h' = h \<and> r = None \<and> e = Some EmptyQueue) \<or>
         (\<exists>x. r = Some x \<and> e = None \<and> heap_Pop h = Some (h', x))"
  using assms by (auto simp: Pop_def Len_def split: if_splits option.splits)

lemma Pop_total: "\<exists>h' r e. Pop h = Some (h', r, e)"
  using Pop_nonempty[of h] by (cases "h = []") (auto simp: Pop_def Len_def)

lemma Pop_queue_inv:
  assumes "Pop h = Some (h', r, e)" "queue_inv h"
  shows "queue_inv h'"
  using Pop_cases[OF assms(1)] assms(2)
  by (auto simp: queue_inv_def dest: heap_Pop_heap_ok heap_Pop_pos_ok)

lemma Push_queue_inv: "queue_inv h \<Longrightarrow> queue_inv (Push h x)"
  by (simp add: queue_inv_def heap_ok_Push pos_ok_Push)

subsection \<open>DeleteItemsByParentId\<close>

lemma delete_range_total: "\<exists>h' n e. delete_range ks h c = Some (h', n, e)"
proof (induction ks arbitrary: h c)
  case Nil
  show ?case by simp
next
  case (Cons k ks)
  obtain h1 e1 where d: "delete h (int k) = Some (h1, e1)"
    using delete_total[of "int k" h] by auto
  show ?case
  proof (cases e1)
    case None
    with d Cons.IH[of h1 "c + 1"] show ?thesis by simp
  next
    case (Some err)
    with d show ?thesis by simp
  qed
qed

lemma delete_range_queue_inv:
  "delete_range ks h c = Some (h', n, e) \<Longrightarrow> queue_inv h \<Longrightarrow> queue_inv h'"
proof (induction ks arbitrary: h c)
  case Nil
  then show ?case by simp
next
  case (Cons k ks)
  obtain h1 e1 where d: "delete h (int k) = Some (h1, e1)"
    using delete_total[of "int k" h] by auto
  have inv1: "queue_inv h1" using delete_queue_inv[OF d Cons.prems(2)] .
  show ?case
  proof (cases e1)
    case None
    with d Cons.prems(1) have "delete_range ks h1 (c + 1) = Some (h', n, e)" by simp
    from Cons.IH[OF this inv1] show ?thesis .
  next
    case (Some err)
    with d Cons.prems(1) inv1 show ?thesis by simp
  qed
qed

lemma delete_length:
  assumes "delete h idx = Some (h', e)"
  shows "(e = None \<longrightarrow> length h = Suc (length h')) \<and> (e \<noteq> None \<longrightarrow> h' = h)"
    and "contents h' \<subseteq># contents h"
  using delete_cases[OF assms] by (auto dest: heap_Remove_props(3,4))

lemma delete_range_count:
  "delete_range ks h c = Some (h', n, e) \<Longrightarrow>
     c \<le> n \<and> int (length h) = int (length h') + (n - c) \<and> contents h' \<subseteq># contents h
     \<and> (e = None \<longrightarrow> n = c + int (length ks))"
proof (induction ks arbitrary: h c)
  case Nil
  then show ?case by simp
next
  case (Cons k ks)
  obtain h1 e1 where d: "delete h (int k) = Some (h1, e1)"
    using delete_total[of "int k" h] by auto
  note dl = delete_length[OF d]
  show ?case
  proof (cases e1)
    case None
    with d Cons.prems(1) have "delete_range ks h1 (c + 1) = Some (h', n, e)" by simp
    from Cons.IH[OF this] dl None show ?thesis
      by (auto intro: subset_mset.order_trans)
  next
    case (Some err)
    with d Cons.prems(1) dl show ?thesis by auto
  qed
qed

lemma DeleteItemsByParentId_total:
  "\<exists>h' n e. DeleteItemsByParentId h parentID = Some (h', n, e)"
  by (simp add: DeleteItemsByParentId_def delete_range_total)

lemma DeleteItemsByParentId_queue_inv:
  "DeleteItemsByParentId h parentID = Some (h', n, e) \<Longrightarrow> queue_inv h \<Longrightarrow> queue_inv h'"
  by (auto simp: DeleteItemsByParentId_def intro: delete_range_queue_inv)

subsection \<open>DeleteItemById\<close>

lemma locateItemByID_found:
  assumes pk: "pos_ok h" and k: "k < length h" and idk: "ID (h ! k) = ident"
    and first: "\<forall>j < k. ID (h ! j) \<noteq> ident"
  shows "locateItemByID h ident = (int k, None)"
proof -
  have "find (\<lambda>element. ID element = ident) h = Some (h ! k)"
    unfolding find_Some_iff using k idk first by blast
  with pos_okD[OF pk k] show ?thesis
    by (simp add: locateItemByID_def Let_def)
qed

lemma locateItemByID_missing:
  assumes "\<forall>x \<in> set h. ID x \<noteq> ident"
  shows "locateItemByID h ident = (- 1, Some (NotFound ident))"
proof -
  have "find (\<lambda>element. ID element = ident) h = None"
    unfolding find_None_iff using assms by blast
  then show ?thesis by (simp add: locateItemByID_def Let_def)
qed

lemma first_match_exists:
  assumes "\<exists>x \<in> set h. ID x = ident"
  shows "\<exists>k < length h. ID (h ! k) = ident \<and> (\<forall>j < k. ID (h ! j) \<noteq> ident)"
proof -
  from assms obtain x where "find (\<lambda>element. ID element = ident) h = Some x"
    by (cases "find (\<lambda>element. ID element = ident) h") (auto simp: find_None_iff)
  then show ?thesis unfolding find_Some_iff by blast
qed

lemma DeleteItemById_total:
  assumes "pos_ok h"
  shows "\<exists>h' e. DeleteItemById h ident = Some (h', e)"
proof (cases "\<exists>x \<in> set h. ID x = ident")
  case False
  then show ?thesis by (simp add: DeleteItemById_def locateItemByID_missing)
next
  case True
  from first_match_exists[OF this] obtain k where
    k: "k < length h" "ID (h ! k) = ident" "\<forall>j < k. ID (h ! j) \<noteq> ident" by blast
  from delete_total[of "int k" h] locateItemByID_found[OF assms k]
  show ?thesis by (simp add: DeleteItemById_def)
qed

lemma DeleteItemById_queue_inv:
  assumes "DeleteItemById h ident = Some (h', e)" "queue_inv h"
  shows "queue_inv h'"
proof (cases "locateItemByID h ident")
  case (Pair idx err)
  show ?thesis
  proof (cases err)
    case None
    with Pair assms(1) have "delete h idx = Some (h', e)" by (simp add: DeleteItemById_def)
    from delete_queue_inv[OF this assms(2)] show ?thesis .
  next
    case (Some a)
    with Pair assms show ?thesis by (simp add: DeleteItemById_def)
  qed
qed

subsection \<open>Sequences of calls\<close>

lemma do_call_queue_inv:
  assumes "queue_inv h"
  shows "\<exists>h'. do_call c h = Some h' \<and> queue_inv h'"
proof (cases c)
  case (CallPush x)
  with assms show ?thesis by (simp add: Push_queue_inv)
next
  case CallPop
  from Pop_total[of h] obtain h' r e where p: "Pop h = Some (h', r, e)" by blast
  with Pop_queue_inv[OF p assms] CallPop show ?thesis by simp
next
  case (CallUpdatePriorityByParentId parentID priority)
  with UpdatePriorityByParentId_queue_inv[OF assms, of parentID priority] show ?thesis by auto
next
  case (CallDeleteItemById ident)
  from assms have "pos_ok h" by (simp add: queue_inv_def)
  from DeleteItemById_total[OF this, of ident] obtain h' e where
    d: "DeleteItemById h ident = Some (h', e)" by blast
  with DeleteItemById_queue_inv[OF d assms] CallDeleteItemById show ?thesis by simp
next
  case (CallDeleteItemsByParentId parentID)
  from DeleteItemsByParentId_total[of h parentID] obtain h' n e where
    d: "DeleteItemsByParentId h parentID = Some (h', n, e)" by blast
  with DeleteItemsByParentId_queue_inv[OF d assms] CallDeleteItemsByParentId show ?thesis by simp
qed

lemma run_calls_queue_inv:
  "queue_inv h \<Longrightarrow> \<exists>h'. run_calls cs h = Some h' \<and> queue_inv h'"
proof (induction cs arbitrary: h)
  case Nil
  then show ?case by simp
next
  case (Cons c cs)
  from do_call_queue_inv[OF Cons.prems, of c] obtain h1 where
    "do_call c h = Some h1" "queue_inv h1" by blast
  with Cons.IH[of h1] show ?case by simp
qed

lemma queue_inv_New: "queue_inv NewPriorityQueue"
  by (simp add: queue_inv_def heap_ok_def pos_ok_def NewPriorityQueue_def)




subsection \<open>Draining\<close>

lemma drain_Nil [simp]: "drain [] = []"
  by (subst drain.simps) (simp add: Len_def)

lemma drain_step:
  assumes "heap_Pop h = Some (h', x)"
  shows "drain h = x # drain h'"
proof -
  from assms have "h \<noteq> []" by (auto simp: heap_Pop_def split: if_splits)
  with assms have "Pop h = Some (h', Some x, None)" "Len h > 0"
    by (simp_all add: Pop_def Len_def)
  then show ?thesis by (subst drain.simps) simp
qed

lemma drain_contents: "contents (drain h) = contents h"
proof (induction h rule: length_induct)
  case (1 h)
  show ?case
  proof (cases "h = []")
    case True
    then show ?thesis by simp
  next
    case False
    from heap_Pop_eq[OF False] obtain h' x where p: "heap_Pop h = Some (h', x)" by blast
    note props = heap_Pop_contents[OF p]
    from props(2) have "length h' < length h" by simp
    with 1 have "contents (drain h') = contents h'" by blast
    with drain_step[OF p] props(1) show ?thesis by (simp add: contents_def)
  qed
qed

lemma entry_in_contents: "e \<in># contents h \<longleftrightarrow> (\<exists>w \<in> set h. entry w = e)"
  by (auto simp: contents_def)

lemma Priority_entry: "Priority x = snd (snd (snd (entry x)))"
  by (simp add: entry_def)

lemma ID_entry: "ID x = fst (entry x)"
  by (simp add: entry_def)

lemma ParentID_entry: "ParentID x = fst (snd (entry x))"
  by (simp add: entry_def)

lemma mset_Priority_contents:
  "mset (map Priority h) = image_mset (\<lambda>e. snd (snd (snd e))) (contents h)"
  by (induction h) (simp_all add: contents_def entry_def)

lemma heap_ok_root_max:
  assumes "heap_ok h" "w \<in> set h"
  shows "Priority w \<le> Priority (h ! 0)"
proof -
  from assms(2) obtain k where "k < length h" "w = h ! k" by (auto simp: in_set_conv_nth)
  with heap_root_max[of h "length h" k] assms(1) show ?thesis by (simp add: heap_ok_iff)
qed

lemma drain_sorted: "heap_ok h \<Longrightarrow> sorted_wrt (\<ge>) (map Priority (drain h))"
proof (induction h rule: length_induct)
  case (1 h)
  show ?case
  proof (cases "h = []")
    case True
    then show ?thesis by simp
  next
    case False
    from heap_Pop_eq[OF False] obtain h' x where p: "heap_Pop h = Some (h', x)" by blast
    note props = heap_Pop_contents[OF p]
    from props(2) have "length h' < length h" by simp
    moreover have ok': "heap_ok h'" using heap_Pop_heap_ok[OF p "1.prems"] .
    ultimately have sorted': "sorted_wrt (\<ge>) (map Priority (drain h'))" using 1 by blast
    have "Priority y \<le> Priority x" if "y \<in> set (drain h')" for y
    proof -
      from that have "entry y \<in># contents (drain h')" by (auto simp: entry_in_contents)
      then have "entry y \<in># contents h" by (simp add: drain_contents props(1))
      then obtain w where w: "w \<in> set h" "entry w = entry y" by (auto simp: entry_in_contents)
      from heap_ok_root_max[OF "1.prems" w(1)] w(2) props(3) show ?thesis
        by (simp add: Priority_entry)
    qed
    with sorted' drain_step[OF p] show ?thesis by auto
  qed
qed

lemma drain_priorities:
  assumes "heap_ok h"
  shows "map Priority (drain h) = rev (sort (map Priority h))"
proof -
  let ?ps = "map Priority (drain h)"
  have "sorted (rev ?ps)"
    using drain_sorted[OF assms] by (simp add: sorted_wrt_rev)
  moreover have "mset (rev ?ps) = mset (map Priority h)"
    unfolding mset_rev mset_Priority_contents drain_contents ..
  ultimately have "sort (map Priority h) = rev ?ps"
    by (rule properties_for_sort[rotated])
  then show ?thesis by simp
qed

lemma count_ID_contents:
  "size (filter_mset (\<lambda>e. fst e = ident) (contents h)) = length (filter (\<lambda>x. ID x = ident) h)"
  by (induction h) (simp_all add: contents_def entry_def)

section \<open>Pop on an empty queue\<close>

text \<open>
  Claim C9. For every queue with \<^verbatim>\<open>Len() == 0\<close>, \<^verbatim>\<open>Pop\<close> returns (it does not panic) with
  the EmptyQueue error, and the queue after the call is the queue before it, still of
  length 0.
\<close>

theorem Pop_empty_queue:
  "Len data = 0 \<Longrightarrow>
     \<exists>data' r. Pop data = Some (data', r, Some EmptyQueue) \<and> data' = data \<and> Len data' = 0"
  by (simp add: Pop_def)

theorem Pop_empty_queue_witness:
  "Len (NewPriorityQueue :: unit QItems) = 0 \<and>
   (\<exists>data' r. Pop (NewPriorityQueue :: unit QItems) = Some (data', r, Some EmptyQueue)
      \<and> data' = NewPriorityQueue \<and> Len data' = 0)"
  using Pop_empty_queue [of "NewPriorityQueue :: unit QItems"]
  by (simp add: Len_def NewPriorityQueue_def)

text \<open>
  Claim C10. For every queue with \<^verbatim>\<open>Len() == 0\<close>, the pointer \<^verbatim>\<open>Pop\<close> returns next to the
  error is \<^verbatim>\<open>nil\<close> (\<open>None\<close> in the model): there is no item to dereference.
\<close>

theorem Pop_empty_returns_nil:
  "Len data = 0 \<Longrightarrow> \<exists>data' e. Pop data = Some (data', None, e) \<and> e \<noteq> None"
  by (simp add: Pop_def)

theorem Pop_empty_returns_nil_witness:
  "Len ([] :: string QItems) = 0 \<and>
   (\<exists>data' e. Pop ([] :: string QItems) = Some (data', None, e) \<and> e \<noteq> None)"
  using Pop_empty_returns_nil [of "[] :: string QItems"]
  by (simp add: Len_def)

section \<open>Deleting and updating by parent ID on concrete queues\<close>

text \<open>
  Claim C1 (the code departs from it). Three pushes: \<open>a\<close> with parent \<open>P\<close> and priority
  3, then \<open>b\<close> and \<open>c\<close> with parent \<open>G\<close> and priorities 2 and 1. The two items of group
  \<open>G\<close> sit in slots 1 and 2, but \<^verbatim>\<open>DeleteItemsByParentId "G"\<close> calls \<^verbatim>\<open>delete(0)\<close> and
  then \<^verbatim>\<open>delete(1)\<close>: it reports 2 deletions without error, has removed \<open>a\<close>, which is
  not in the group, and has kept \<open>b\<close>, which is; draining the queue afterwards yields
  an item of group \<open>G\<close>.
\<close>

theorem DeleteItemsByParentId_removes_other_group:
  "DeleteItemsByParentId
     (Push (Push (Push NewPriorityQueue
        \<lparr>ID = ''a'', ParentID = ''P'', Value = (), Priority = 3, index = 0\<rparr>)
        \<lparr>ID = ''b'', ParentID = ''G'', Value = (), Priority = 2, index = 0\<rparr>)
        \<lparr>ID = ''c'', ParentID = ''G'', Value = (), Priority = 1, index = 0\<rparr>) ''G''
   = Some ([\<lparr>ID = ''b'', ParentID = ''G'', Value = (), Priority = 2, index = 0\<rparr>], 2, None)
   \<and> map ParentID
         (drain [\<lparr>ID = ''b'', ParentID = ''G'', Value = (), Priority = 2, index = 0\<rparr>])
       = [''G'']"
  by code_simp

text \<open>
  Claim C2 (the code departs from it). Three pushes of items of group \<open>G\<close> with the
  priorities 10, 5 and 4, then \<^verbatim>\<open>UpdatePriorityByParentId("G", 1)\<close>. Iteration 0 lowers
  the root to 1 and \<^verbatim>\<open>Fix\<close> swaps it with slot 1; iteration 1 therefore meets the item
  just updated a second time, and the item of priority 5, now in slot 0, is never
  visited. The call returns 3, two items have priority 1, and the third still has
  priority 5, which is what a drain pops first.
\<close>

theorem UpdatePriorityByParentId_skips_entry:
  "UpdatePriorityByParentId
     (Push (Push (Push NewPriorityQueue
        \<lparr>ID = ''a'', ParentID = ''G'', Value = (), Priority = 10, index = 0\<rparr>)
        \<lparr>ID = ''b'', ParentID = ''G'', Value = (), Priority = 5, index = 0\<rparr>)
        \<lparr>ID = ''c'', ParentID = ''G'', Value = (), Priority = 4, index = 0\<rparr>) ''G'' 1
   = Some ([\<lparr>ID = ''b'', ParentID = ''G'', Value = (), Priority = 5, index = 0\<rparr>,
            \<lparr>ID = ''a'', ParentID = ''G'', Value = (), Priority = 1, index = 1\<rparr>,
            \<lparr>ID = ''c'', ParentID = ''G'', Value = (), Priority = 1, index = 2\<rparr>], 3)
   \<and> map Priority
         (drain [\<lparr>ID = ''b'', ParentID = ''G'', Value = (), Priority = 5, index = 0\<rparr>,
                 \<lparr>ID = ''a'', ParentID = ''G'', Value = (), Priority = 1, index = 1\<rparr>,
                 \<lparr>ID = ''c'', ParentID = ''G'', Value = (), Priority = 1, index = 2\<rparr>])
       = [5, 1, 1]"
  by code_simp

text \<open>
  On the fixture of \<^verbatim>\<open>Test_UpdatePriorityByParentId\<close> the new priority 500 is above every
  priority stored, no \<^verbatim>\<open>Fix\<close> moves an item, and all ten items are updated.
\<close>

lemma UpdatePriorityByParentId_test_fixture:
  "(case UpdatePriorityByParentId populateQueue10 ''12345'' 500 of
      None \<Rightarrow> False
    | Some (h, n) \<Rightarrow> n = 10 \<and> map Priority (drain h) = replicate 10 500)"
  by code_simp

text \<open>
  Claim C4 (the code departs from it). A queue holding exactly three items, all of group
  \<open>G\<close>: \<^verbatim>\<open>DeleteItemsByParentId "G"\<close> calls \<^verbatim>\<open>delete(0)\<close>, \<^verbatim>\<open>delete(1)\<close> and then
  \<^verbatim>\<open>delete(2)\<close> on a slice of length 1, and returns the "Index out of range" error of
  \<^verbatim>\<open>delete\<close> to its caller, with a count of 2 and one item of the group left.
\<close>

theorem DeleteItemsByParentId_surfaces_IndexOutOfRange:
  "DeleteItemsByParentId
     (Push (Push (Push NewPriorityQueue
        \<lparr>ID = ''x'', ParentID = ''G'', Value = (), Priority = 1, index = 0\<rparr>)
        \<lparr>ID = ''y'', ParentID = ''G'', Value = (), Priority = 2, index = 0\<rparr>)
        \<lparr>ID = ''z'', ParentID = ''G'', Value = (), Priority = 3, index = 0\<rparr>) ''G''
   = Some ([\<lparr>ID = ''y'', ParentID = ''G'', Value = (), Priority = 2, index = 0\<rparr>],
           2, Some IndexOutOfRange)"
  by code_simp

section \<open>Errors and the backing store\<close>

text \<open>
  Claim C3 (the code departs from it). Two pushes of items of group \<open>G\<close>, then
  \<^verbatim>\<open>DeleteItemsByParentId "G"\<close>: the call runs \<^verbatim>\<open>delete(0)\<close>, which removes \<open>b\<close>, and then
  \<^verbatim>\<open>delete(1)\<close> on a slice of length 1, which fails. The caller gets the count 1 together
  with the "Index out of range" error, and the slice after the failed call holds one item
  where it held two before: the call returned an error and left the store changed.
\<close>

theorem DeleteItemsByParentId_error_after_removal:
  "DeleteItemsByParentId
     (Push (Push NewPriorityQueue
        \<lparr>ID = ''b'', ParentID = ''G'', Value = (), Priority = 2, index = 0\<rparr>)
        \<lparr>ID = ''c'', ParentID = ''G'', Value = (), Priority = 1, index = 0\<rparr>) ''G''
   = Some ([\<lparr>ID = ''c'', ParentID = ''G'', Value = (), Priority = 1, index = 0\<rparr>],
           1, Some IndexOutOfRange)
   \<and> [\<lparr>ID = ''c'', ParentID = ''G'', Value = (), Priority = 1, index = 0\<rparr>]
     \<noteq> Push (Push NewPriorityQueue
        \<lparr>ID = ''b'', ParentID = ''G'', Value = (), Priority = 2, index = 0\<rparr>)
        \<lparr>ID = ''c'', ParentID = ''G'', Value = (), Priority = 1, index = 0\<rparr>"
  by code_simp

section \<open>Pop returns an entry of maximal priority\<close>

text \<open>
  Claim C5. On every queue with the heap property (every queue the public operations
  can produce has it, as shown for claim C6 below), a \<^verbatim>\<open>Pop\<close> of a non-empty queue returns,
  without error, an item whose priority is at least that of every item stored, removes
  exactly that entry, and leaves a queue with the heap property. Consequently a queue
  whose priorities are 1 to 10, once each, is drained in the order 10, 9, ..., 1.
\<close>

theorem Pop_returns_max_priority:
  assumes "heap_ok h"
  shows "(Len h > 0 \<longrightarrow>
            (\<exists>h' x. Pop h = Some (h', Some x, None) \<and>
                    (\<forall>y \<in> set h. Priority y \<le> Priority x) \<and>
                    contents h = add_mset (entry x) (contents h') \<and>
                    heap_ok h'))
       \<and> (mset (map Priority h) = mset [1..10] \<longrightarrow>
            map Priority (drain h) = rev [1..10])"
proof (intro conjI impI)
  assume "Len h > 0"
  then have ne: "h \<noteq> []" by (auto simp: Len_def)
  from Pop_nonempty[OF ne] obtain h' x where
    p: "Pop h = Some (h', Some x, None)" and hp: "heap_Pop h = Some (h', x)" by blast
  note props = heap_Pop_contents[OF hp]
  have "Priority y \<le> Priority x" if "y \<in> set h" for y
    using heap_ok_root_max[OF assms that] props(3) by (simp add: Priority_entry)
  with p props(1) heap_Pop_heap_ok[OF hp assms]
  show "\<exists>h' x. Pop h = Some (h', Some x, None) \<and>
          (\<forall>y \<in> set h. Priority y \<le> Priority x) \<and>
          contents h = add_mset (entry x) (contents h') \<and> heap_ok h'"
    by blast
next
  assume m: "mset (map Priority h) = mset [1..10]"
  have "sort (map Priority h) = [1..10]"
    using m by (intro properties_for_sort) simp_all
  with drain_priorities[OF assms] show "map Priority (drain h) = rev [1..10]" by simp
qed

theorem Pop_returns_max_priority_witness:
  "heap_ok populateQueue10 \<and> Len populateQueue10 > 0 \<and>
   mset (map Priority populateQueue10) = mset [1..10] \<and>
   (\<exists>h' x. Pop populateQueue10 = Some (h', Some x, None) \<and>
           (\<forall>y \<in> set populateQueue10. Priority y \<le> Priority x)) \<and>
   map Priority (drain populateQueue10) = [10, 9, 8, 7, 6, 5, 4, 3, 2, 1]"
proof -
  have a: "heap_ok populateQueue10" by code_simp
  have b: "Len populateQueue10 > 0" by code_simp
  have "map Priority populateQueue10 = [10, 9, 6, 7, 8, 2, 5, 1, 4, 3]" by code_simp
  then have c: "mset (map Priority populateQueue10) = mset [1..10]"
    by (simp add: upto_rec1)
  have d: "rev [1..10] = [10, 9, 8, 7, 6, 5, 4, 3, 2, 1 :: int]" by code_simp
  from Pop_returns_max_priority[OF a] a b c d show ?thesis by auto
qed


section \<open>Invariants of the public interface\<close>

text \<open>
  Claim C6. Starting from a fresh queue, every sequence of \<^verbatim>\<open>Push\<close>, \<^verbatim>\<open>Pop\<close>,
  \<^verbatim>\<open>UpdatePriorityByParentId\<close>, \<^verbatim>\<open>DeleteItemById\<close> and \<^verbatim>\<open>DeleteItemsByParentId\<close> calls runs
  without a panic and ends in a slice with the max-heap property: the item in the parent
  slot of every slot \<open>i > 0\<close> has a priority at least that of the item in slot \<open>i\<close>.
\<close>

theorem heap_property_invariant:
  "\<exists>h. run_calls cs NewPriorityQueue = Some h \<and> heap_ok h"
  using run_calls_queue_inv[OF queue_inv_New, of cs] by (auto simp: queue_inv_def)


theorem heap_property_invariant_witness:
  "run_calls
     [CallPush \<lparr>ID = ''a'', ParentID = ''G'', Value = (), Priority = 1, index = 0\<rparr>,
      CallPush \<lparr>ID = ''b'', ParentID = ''G'', Value = (), Priority = 5, index = 0\<rparr>,
      CallPush \<lparr>ID = ''c'', ParentID = ''P'', Value = (), Priority = 3, index = 0\<rparr>,
      CallPush \<lparr>ID = ''d'', ParentID = ''P'', Value = (), Priority = 4, index = 0\<rparr>,
      CallUpdatePriorityByParentId ''G'' 2,
      CallDeleteItemById ''c'',
      CallPop] NewPriorityQueue
   = Some [\<lparr>ID = ''a'', ParentID = ''G'', Value = (), Priority = 2, index = 0\<rparr>,
           \<lparr>ID = ''b'', ParentID = ''G'', Value = (), Priority = 2, index = 1\<rparr>]
   \<and> heap_ok [\<lparr>ID = ''a'', ParentID = ''G'', Value = (), Priority = 2, index = 0\<rparr>,
               \<lparr>ID = ''b'', ParentID = ''G'', Value = (), Priority = 2, index = 1\<rparr>]"
proof -
  let ?cs = "[CallPush \<lparr>ID = ''a'', ParentID = ''G'', Value = (), Priority = 1, index = 0\<rparr>,
      CallPush \<lparr>ID = ''b'', ParentID = ''G'', Value = (), Priority = 5, index = 0\<rparr>,
      CallPush \<lparr>ID = ''c'', ParentID = ''P'', Value = (), Priority = 3, index = 0\<rparr>,
      CallPush \<lparr>ID = ''d'', ParentID = ''P'', Value = (), Priority = 4, index = 0\<rparr>,
      CallUpdatePriorityByParentId ''G'' 2,
      CallDeleteItemById ''c'',
      CallPop]"
  have run: "run_calls ?cs NewPriorityQueue
     = Some [\<lparr>ID = ''a'', ParentID = ''G'', Value = (), Priority = 2, index = 0\<rparr>,
             \<lparr>ID = ''b'', ParentID = ''G'', Value = (), Priority = 2, index = 1\<rparr>]"
    by code_simp
  from heap_property_invariant[of ?cs] obtain h where
    "run_calls ?cs NewPriorityQueue = Some h" "heap_ok h" by blast
  with run show ?thesis by simp
qed

text \<open>
  Claim C7. Starting from a fresh queue, after every sequence of public calls (so before
  and after each of them) the \<^verbatim>\<open>index\<close> field of the item in every slot is the number of
  the slot; and an item removed from such a queue, by \<^verbatim>\<open>Pop\<close> or by the \<^verbatim>\<open>heap.Remove\<close> of
  a delete, has its \<^verbatim>\<open>index\<close> set to \<open>-1\<close>.
\<close>

theorem position_consistency_invariant:
  "\<exists>h. run_calls cs NewPriorityQueue = Some h \<and> pos_ok h \<and>
       (\<forall>h' x e. Pop h = Some (h', Some x, e) \<longrightarrow> index x = - 1) \<and>
       (\<forall>i h' x. heap_Remove h i = Some (h', x) \<longrightarrow> index x = - 1)"
proof -
  from run_calls_queue_inv[OF queue_inv_New, of cs] obtain h where
    h: "run_calls cs NewPriorityQueue = Some h" "queue_inv h" by blast
  have "index x = - 1" if "Pop h = Some (h', Some x, e)" for h' x e
    using Pop_cases[OF that] by (auto dest: heap_Pop_contents(4))
  moreover have "index x = - 1" if "heap_Remove h i = Some (h', x)" for i h' x
    using heap_Remove_props(5)[OF that] by simp
  ultimately show ?thesis using h by (auto simp: queue_inv_def)
qed

theorem position_consistency_invariant_witness:
  "run_calls
     [CallPush \<lparr>ID = ''a'', ParentID = ''G'', Value = (), Priority = 7, index = 0\<rparr>,
      CallPush \<lparr>ID = ''b'', ParentID = ''H'', Value = (), Priority = 9, index = 0\<rparr>,
      CallPush \<lparr>ID = ''c'', ParentID = ''G'', Value = (), Priority = 8, index = 0\<rparr>,
      CallDeleteItemsByParentId ''H'',
      CallUpdatePriorityByParentId ''G'' 3] NewPriorityQueue
   = Some [\<lparr>ID = ''a'', ParentID = ''G'', Value = (), Priority = 7, index = 0\<rparr>,
           \<lparr>ID = ''c'', ParentID = ''G'', Value = (), Priority = 3, index = 1\<rparr>]
   \<and> pos_ok [\<lparr>ID = ''a'', ParentID = ''G'', Value = (), Priority = 7, index = 0\<rparr>,
              \<lparr>ID = ''c'', ParentID = ''G'', Value = (), Priority = 3, index = 1\<rparr>]
   \<and> Pop [\<lparr>ID = ''a'', ParentID = ''G'', Value = (), Priority = 7, index = 0\<rparr>,
           \<lparr>ID = ''c'', ParentID = ''G'', Value = (), Priority = 3, index = 1\<rparr>]
     = Some ([\<lparr>ID = ''c'', ParentID = ''G'', Value = (), Priority = 3, index = 0\<rparr>],
             Some \<lparr>ID = ''a'', ParentID = ''G'', Value = (), Priority = 7, index = - 1\<rparr>,
             None)
   \<and> index \<lparr>ID = ''a'', ParentID = ''G'', Value = (), Priority = 7, index = - 1\<rparr> = - 1"
proof -
  let ?cs = "[CallPush \<lparr>ID = ''a'', ParentID = ''G'', Value = (), Priority = 7, index = 0\<rparr>,
      CallPush \<lparr>ID = ''b'', ParentID = ''H'', Value = (), Priority = 9, index = 0\<rparr>,
      CallPush \<lparr>ID = ''c'', ParentID = ''G'', Value = (), Priority = 8, index = 0\<rparr>,
      CallDeleteItemsByParentId ''H'',
      CallUpdatePriorityByParentId ''G'' 3]"
  let ?h = "[\<lparr>ID = ''a'', ParentID = ''G'', Value = (), Priority = 7, index = 0\<rparr>,
             \<lparr>ID = ''c'', ParentID = ''G'', Value = (), Priority = 3, index = 1\<rparr>]"
  have run: "run_calls ?cs NewPriorityQueue = Some ?h"
    by code_simp
  have pop: "Pop ?h
     = Some ([\<lparr>ID = ''c'', ParentID = ''G'', Value = (), Priority = 3, index = 0\<rparr>],
             Some \<lparr>ID = ''a'', ParentID = ''G'', Value = (), Priority = 7, index = - 1\<rparr>,
             None)"
    by code_simp
  from position_consistency_invariant[of ?cs] obtain h where
    h: "run_calls ?cs NewPriorityQueue = Some h" "pos_ok h"
    "\<forall>h' x e. Pop h = Some (h', Some x, e) \<longrightarrow> index x = - 1" by blast
  from h(1) run have "h = ?h" by simp
  with h(2,3) run pop show ?thesis by blast
qed

section \<open>Deleting by ID\<close>

text \<open>
  Claim C8 (as amended). On every queue whose index fields are right: when some item
  has the given ID, \<^verbatim>\<open>DeleteItemById\<close> returns without error, has removed exactly one
  entry, the first match in slice order, and \<^verbatim>\<open>Len()\<close> is smaller by 1; a drain of the
  queue then yields exactly the entries left, and no item with that ID provided the ID
  matched exactly one item (IDs are not unique, and later duplicates stay in the queue).
  When no item has the ID, the call returns the NotFound error and the slice is unchanged.
\<close>

theorem DeleteItemById_first_match:
  assumes "pos_ok h"
  shows "((\<exists>x \<in> set h. ID x = ident) \<longrightarrow>
            (\<exists>k h'. k < length h \<and> ID (h ! k) = ident \<and> (\<forall>j < k. ID (h ! j) \<noteq> ident) \<and>
                    DeleteItemById h ident = Some (h', None) \<and>
                    Len h' = Len h - 1 \<and>
                    contents h = add_mset (entry (h ! k)) (contents h') \<and>
                    contents (drain h') = contents h' \<and>
                    (length (filter (\<lambda>x. ID x = ident) h) = 1 \<longrightarrow>
                       (\<forall>x \<in> set (drain h'). ID x \<noteq> ident))))
       \<and> ((\<forall>x \<in> set h. ID x \<noteq> ident) \<longrightarrow>
            DeleteItemById h ident = Some (h, Some (NotFound ident)))"
proof (intro conjI impI)
  assume "\<forall>x \<in> set h. ID x \<noteq> ident"
  then show "DeleteItemById h ident = Some (h, Some (NotFound ident))"
    by (simp add: DeleteItemById_def locateItemByID_missing)
next
  assume "\<exists>x \<in> set h. ID x = ident"
  from first_match_exists[OF this] obtain k where
    k: "k < length h" "ID (h ! k) = ident" "\<forall>j < k. ID (h ! j) \<noteq> ident" by blast
  from delete_in_range[of "int k" h] k(1) obtain h' where
    d: "delete h (int k) = Some (h', None)"
    and r: "heap_Remove h (int k) = Some (h', (h ! k)\<lparr>index := - 1\<rparr>)" by auto
  have del: "DeleteItemById h ident = Some (h', None)"
    using locateItemByID_found[OF assms k] d by (simp add: DeleteItemById_def)
  note props = heap_Remove_props[OF r]
  have len: "Len h' = Len h - 1" using props(3) by (simp add: Len_def)
  have cont: "contents h = add_mset (entry (h ! k)) (contents h')" using props(4) by simp
  have uniq: "\<forall>x \<in> set (drain h'). ID x \<noteq> ident"
    if one: "length (filter (\<lambda>x. ID x = ident) h) = 1"
  proof
    fix x assume x: "x \<in> set (drain h')"
    have "size (filter_mset (\<lambda>e. fst e = ident) (contents h)) = 1"
      using one by (simp add: count_ID_contents)
    then have "size (filter_mset (\<lambda>e. fst e = ident) (contents h')) = 0"
      unfolding cont using k(2) by (simp add: ID_entry)
    then have none: "\<forall>e \<in># contents h'. fst e \<noteq> ident"
      by (simp only: size_eq_0_iff_empty filter_mset_eq_mempty_iff) blast
    from x have "entry x \<in># contents (drain h')" by (auto simp: entry_in_contents)
    then have "entry x \<in># contents h'" by (simp add: drain_contents)
    with none show "ID x \<noteq> ident" by (simp add: ID_entry)
  qed
  from k del len cont uniq drain_contents[of h']
  show "\<exists>k h'. k < length h \<and> ID (h ! k) = ident \<and> (\<forall>j < k. ID (h ! j) \<noteq> ident) \<and>
          DeleteItemById h ident = Some (h', None) \<and>
          Len h' = Len h - 1 \<and>
          contents h = add_mset (entry (h ! k)) (contents h') \<and>
          contents (drain h') = contents h' \<and>
          (length (filter (\<lambda>x. ID x = ident) h) = 1 \<longrightarrow>
             (\<forall>x \<in> set (drain h'). ID x \<noteq> ident))"
    by blast
qed

theorem DeleteItemById_first_match_witness:
  "pos_ok populateQueue10 \<and> (\<exists>x \<in> set populateQueue10. ID x = ''5'') \<and>
   length (filter (\<lambda>x. ID x = ''5'') populateQueue10) = 1 \<and>
   (\<exists>h'. DeleteItemById populateQueue10 ''5'' = Some (h', None) \<and>
         Len h' = 9 \<and> (\<forall>x \<in> set (drain h'). ID x \<noteq> ''5''))"
proof -
  have a: "pos_ok populateQueue10" by code_simp
  have b: "\<exists>x \<in> set populateQueue10. ID x = ''5''" by code_simp
  have c: "length (filter (\<lambda>x. ID x = ''5'') populateQueue10) = 1" by code_simp
  have d: "Len populateQueue10 = 10" by code_simp
  from DeleteItemById_first_match[OF a, of "''5''"] b c d
  show ?thesis using a by auto
qed

text \<open>
  The claim as stated fails when the ID occurs twice: the second item stays and the drain
  yields an item with the deleted ID.
\<close>

theorem DeleteItemById_duplicate_key_remains:
  "DeleteItemById
     (Push (Push NewPriorityQueue
        \<lparr>ID = ''x'', ParentID = ''P'', Value = (), Priority = 2, index = 0\<rparr>)
        \<lparr>ID = ''x'', ParentID = ''Q'', Value = (), Priority = 1, index = 0\<rparr>) ''x''
   = Some ([\<lparr>ID = ''x'', ParentID = ''Q'', Value = (), Priority = 1, index = 0\<rparr>], None)
   \<and> map ID (drain [\<lparr>ID = ''x'', ParentID = ''Q'', Value = (), Priority = 1, index = 0\<rparr>])
     = [''x'']"
  by code_simp

end
